theory Spec2Isabelle
  imports Complex_Main "HOL-Library.Word" "HOL-Library.AList"
begin

section \<open>JavaScript values\<close>

text \<open>
  wirepig is written in JavaScript, so every function of the library takes and returns
  dynamically typed values. The type \<open>jsval\<close> holds the values the library
  distinguishes with its tests of \<open>src/lib.js\<close> (\<open>isString\<close>, \<open>isBuffer\<close>,
  \<open>isPlainObject\<close>, ...): primitives, numbers (a rational, NaN or an infinity), strings,
  byte buffers, regular expressions, plain objects as the list of their own enumerable
  properties in \<open>Object.entries\<close> order, arrays, and callables. A regular expression
  is \<open>VRegExp source flags lastIndex\<close>: a \<open>RegExp\<close> object keeps in \<open>lastIndex\<close> where
  its next \<open>test\<close> starts when it carries the flag \<open>g\<close> or \<open>y\<close>. A callable supplied by the caller is \<open>VFun name id\<close>: what it does when
  called is given by the environment (\<open>call_fn\<close>), so that every theorem holds for every
  behaviour of the caller's code, raising included. \<open>VLate p path f\<close> is the closure
  \<open>lateValidator\<close> that \<open>isFunction(p)\<close> of \<open>src/validate.js\<close> returns around \<open>f\<close>.
  \<open>VBuiltin n\<close> is a function every object inherits from \<open>Object.prototype\<close>, and
  \<open>VOther\<close> any other object (a class instance, a socket).

  A \<open>char\<close> stands for one code unit of a JavaScript string. Callables are taken to
  be pure: the same arguments give the same outcome. Values are trees, so two places of
  a declaration never hold one and the same object.
\<close>

type_synonym bytes = "8 word list"
type_synonym path = "string list"

text \<open>The validator's predicates (\<open>src/validate.js\<close>), one constructor per combinator.\<close>

datatype pred =
    Always | IsString | IsPlainObject | IsBuffer | IsBoolean | IsRegExp
  | IsUndefined | IsInteger | IsArray
  | IsValidStatusCode | IsPositive
  | Obj "(string \<times> pred) list"
  | Arr pred
  | Keyvals pred pred
  | Or "pred list"
  | And "pred list"
  | Alias pred string
  | Branch "pred list" "pred list" string
  | IsFunction "pred option"
  | Exclusive "string list" "string list"

datatype jsval =
    VUndefined | VNull | VBool bool
  | VNum rat | VNaN | VInf bool
  | VStr string | VBuf bytes | VRegExp string string nat
  | VObj "(string \<times> jsval) list"
  | VArr "jsval list"
  | VFun string nat
  | VLate pred path jsval
  | VBuiltin string
  | VOther nat

datatype exn =
    Thrown jsval
  | TypeError string
  | ValidationError string
  | PendingMockError string

text \<open>
  What the host (Node.js) and the caller provide: \<open>util.inspect\<close> with and without the
  options of \<open>valueToString\<close>, UTF-8 decoding and encoding of buffers, whether a
  regular expression of a given source and flags matches a string when the search
  starts at a given index, the number a non-numeric value is coerced to by \<open>>=\<close>,
  \<open>new URL(url, base)\<close> (\<open>None\<close> when it raises, else pathname and search), the fault
  \<open>res.writeHead\<close> raises on a status code and a header map it refuses (\<open>None\<close> when
  it accepts them), and the outcome of calling a caller's function or a built-in one.
\<close>

record env =
  inspect :: "jsval \<Rightarrow> string"
  valueToString :: "jsval \<Rightarrow> string"
  utf8_decode :: "bytes \<Rightarrow> string"
  utf8_encode :: "string \<Rightarrow> bytes"
  regexp_test :: "string \<Rightarrow> string \<Rightarrow> nat \<Rightarrow> string \<Rightarrow> bool"
  to_number :: "jsval \<Rightarrow> jsval"
  url_parse :: "string \<Rightarrow> string \<Rightarrow> (string \<times> string) option"
  writeHead_fault :: "int \<Rightarrow> (string \<times> bytes) list \<Rightarrow> exn option"
  call_fn :: "nat \<Rightarrow> jsval list \<Rightarrow> exn + jsval"
  call_builtin :: "string \<Rightarrow> jsval list \<Rightarrow> exn + jsval"

section \<open>Strings, properties and type tests\<close>

fun join :: "string \<Rightarrow> string list \<Rightarrow> string" where
  "join sep [] = []"
| "join sep [x] = x"
| "join sep (x # y # ys) = x @ sep @ join sep (y # ys)"

fun show_nat :: "nat \<Rightarrow> string" where
  "show_nat n =
     (if n < 10 then [char_of (48 + n)]
      else show_nat (n div 10) @ [char_of (48 + n mod 10)])"

declare show_nat.simps [simp del]

text \<open>
  A property read \<open>v[k]\<close>. An object literal inherits from \<open>Object.prototype\<close>, so a name
  that is not an own property still reads as the inherited member for the names below.
  On a value that is not a plain object the library only reads the field names of a
  response descriptor, through \<open>?.\<close>, which no such value has.
\<close>

definition object_prototype_keys :: "string list" where
  "object_prototype_keys =
     [''constructor'', ''hasOwnProperty'', ''isPrototypeOf'', ''propertyIsEnumerable'',
      ''toLocaleString'', ''toString'', ''valueOf'', ''__defineGetter__'',
      ''__defineSetter__'', ''__lookupGetter__'', ''__lookupSetter__'']"

definition inherited :: "string \<Rightarrow> jsval" where
  "inherited k =
     (if k = ''__proto__'' then VObj []
      else if k = ''constructor'' then VBuiltin ''Object''
      else if k \<in> set object_prototype_keys then VBuiltin k
      else VUndefined)"

fun get_prop :: "jsval \<Rightarrow> string \<Rightarrow> jsval" where
  "get_prop (VObj kvs) k = (case map_of kvs k of Some v \<Rightarrow> v | None \<Rightarrow> inherited k)"
| "get_prop _ k = VUndefined"

text \<open>
  An assignment \<open>obj[k] = v\<close> on an object literal: an existing property keeps its place,
  a new one goes last; the name \<open>__proto__\<close> is the prototype's setter and adds no own
  property (the change of prototype itself is not modelled).
\<close>

definition set_prop :: "(string \<times> jsval) list \<Rightarrow> string \<Rightarrow> jsval \<Rightarrow> (string \<times> jsval) list" where
  "set_prop kvs k v = (if k = ''__proto__'' then kvs else AList.update k v kvs)"

text \<open>
  The type tests of \<open>src/lib.js\<close>. \<open>src/validate.js\<close> imports them as \<open>_isString\<close>,
  \<open>_isFunction\<close>, ... and exports predicates under the plain names; here the tests carry
  a prime and the predicates are the constructors of \<open>pred\<close>.
\<close>

fun isFunction' :: "jsval \<Rightarrow> bool" where
  "isFunction' (VFun _ _) = True"
| "isFunction' (VLate _ _ _) = True"
| "isFunction' (VBuiltin _) = True"
| "isFunction' _ = False"

fun isString' :: "jsval \<Rightarrow> bool" where
  "isString' (VStr _) = True"
| "isString' _ = False"

fun isBuffer' :: "jsval \<Rightarrow> bool" where
  "isBuffer' (VBuf _) = True"
| "isBuffer' _ = False"

fun isBoolean' :: "jsval \<Rightarrow> bool" where
  "isBoolean' (VBool _) = True"
| "isBoolean' _ = False"

text \<open>\<open>v !== null && v !== undefined && v.constructor === Object\<close>\<close>

fun isPlainObject' :: "jsval \<Rightarrow> bool" where
  "isPlainObject' (VObj kvs) = (get_prop (VObj kvs) ''constructor'' = VBuiltin ''Object'')"
| "isPlainObject' _ = False"

fun isArray' :: "jsval \<Rightarrow> bool" where
  "isArray' (VArr _) = True"
| "isArray' _ = False"

fun isInteger' :: "jsval \<Rightarrow> bool" where
  "isInteger' (VNum r) = (r = of_int \<lfloor>r\<rfloor>)"
| "isInteger' _ = False"

fun isRegExp' :: "jsval \<Rightarrow> bool" where
  "isRegExp' (VRegExp _ _ _) = True"
| "isRegExp' _ = False"

definition isUndefined' :: "jsval \<Rightarrow> bool" where
  "isUndefined' v = (v = VUndefined)"

fun int_of :: "jsval \<Rightarrow> int" where
  "int_of (VNum r) = \<lfloor>r\<rfloor>"
| "int_of _ = 0"

text \<open>JavaScript truthiness, as \<open>!\<close>, \<open>if\<close> and \<open>Array.prototype.find\<close> read a value.\<close>

fun truthy :: "jsval \<Rightarrow> bool" where
  "truthy VUndefined = False"
| "truthy VNull = False"
| "truthy (VBool b) = b"
| "truthy (VNum r) = (r \<noteq> 0)"
| "truthy VNaN = False"
| "truthy (VStr s) = (s \<noteq> [])"
| "truthy _ = True"

text \<open>\<open>value >= n\<close> and \<open>value <= n\<close> for an integer literal \<open>n\<close>.\<close>

fun num_ge :: "jsval \<Rightarrow> int \<Rightarrow> bool" where
  "num_ge (VNum r) n = (of_int n \<le> r)"
| "num_ge (VInf pos) n = pos"
| "num_ge _ n = False"

fun num_le :: "jsval \<Rightarrow> int \<Rightarrow> bool" where
  "num_le (VNum r) n = (r \<le> of_int n)"
| "num_le (VInf pos) n = (\<not> pos)"
| "num_le _ n = False"

fun is_number :: "jsval \<Rightarrow> bool" where
  "is_number (VNum _) = True"
| "is_number VNaN = True"
| "is_number (VInf _) = True"
| "is_number _ = False"

definition js_ge :: "env \<Rightarrow> jsval \<Rightarrow> int \<Rightarrow> bool" where
  "js_ge E v n = num_ge (if is_number v then v else to_number E v) n"

definition js_le :: "env \<Rightarrow> jsval \<Rightarrow> int \<Rightarrow> bool" where
  "js_le E v n = num_le (if is_number v then v else to_number E v) n"

section \<open>The validator (\<open>src/validate.js\<close>)\<close>

text \<open>\<open>error(path, message, value)\<close>: one formatted issue.\<close>

definition error :: "env \<Rightarrow> path \<Rightarrow> string \<Rightarrow> jsval \<Rightarrow> string list" where
  "error E path message v =
     [(CHR 0x60 # join ''.'' path) @ (CHR 0x60 # '' '') @ message @ '' (got '' @ inspect E v @ '')'']"

text \<open>\<open>Intl.ListFormat('en', {style: 'long', type: 'disjunction'})\<close>\<close>

fun arrayOr :: "string list \<Rightarrow> string" where
  "arrayOr [] = []"
| "arrayOr [a] = a"
| "arrayOr [a, b] = a @ '' or '' @ b"
| "arrayOr xs = join '', '' (butlast xs) @ '', or '' @ last xs"

text \<open>
  \<open>p.name\<close> of a predicate, as \<open>or\<close> prints it: the exported arrow functions carry the
  name of their binding, the closures returned by the combinators have none.
\<close>

fun pred_name :: "pred \<Rightarrow> string" where
  "pred_name Always = ''always''"
| "pred_name IsString = ''isString''"
| "pred_name IsPlainObject = ''isPlainObject''"
| "pred_name IsBuffer = ''isBuffer''"
| "pred_name IsBoolean = ''isBoolean''"
| "pred_name IsRegExp = ''isRegExp''"
| "pred_name IsUndefined = ''isUndefined''"
| "pred_name IsInteger = ''isInteger''"
| "pred_name IsArray = ''isArray''"
| "pred_name IsValidStatusCode = ''isValidStatusCode''"
| "pred_name IsPositive = ''isPositive''"
| "pred_name _ = []"

text \<open>\<open>r(value, errors)\<close> of the source, the pair a predicate returns.\<close>

definition r' :: "jsval \<Rightarrow> string list \<Rightarrow> jsval \<times> string list" where
  "r' v errors = (v, errors)"

declare r'_def [simp]

text \<open>
  The key of \<open>conformed[cK] = cV\<close> in \<open>keyvals\<close>: a string is the property name itself
  (the library's key predicates hand a string back unchanged); any other value is turned
  into a string by the host.
\<close>

definition to_key :: "env \<Rightarrow> jsval \<Rightarrow> string" where
  "to_key E v = (case v of VStr s \<Rightarrow> s | _ \<Rightarrow> inspect E v)"

lemma size_list_tl_le: "size_list f (tl xs) \<le> size_list f xs"
  by (cases xs) auto

lemma size_list_nth_le: "i < length xs \<Longrightarrow> f (xs ! i) \<le> size_list f xs"
  using size_list_estimation' [OF nth_mem, of i xs "f (xs ! i)" f] by simp

text \<open>
  \<open>validate E p value path\<close> is the call \<open>p(value, path)\<close> of a predicate built by the
  combinators; it returns the pair \<open>[conformed, errors]\<close>. The loops of \<open>obj\<close>, \<open>arr\<close>,
  \<open>keyvals\<close> and \<open>and\<close> are folds over the entries in order, \<open>or\<close> takes the first
  result without errors, and \<open>branch\<close> walks its two lists by index.
  \<open>isFunction(p)\<close> does not call the function: it wraps it (\<open>VLate\<close>).
\<close>

function (sequential)
  validate :: "env \<Rightarrow> pred \<Rightarrow> jsval \<Rightarrow> path \<Rightarrow> jsval \<times> string list"
and branch_loop :: "env \<Rightarrow> pred list \<Rightarrow> pred list \<Rightarrow> string \<Rightarrow> jsval \<Rightarrow> path \<Rightarrow> jsval \<times> string list"
where
  "validate E Always v path = r' v []"
| "validate E IsString v path =
     r' v (if isString' v then [] else error E path ''must be string'' v)"
| "validate E IsPlainObject v path =
     r' v (if isPlainObject' v then [] else error E path ''must be plain object'' v)"
| "validate E IsBuffer v path =
     r' v (if isBuffer' v then [] else error E path ''must be buffer'' v)"
| "validate E IsBoolean v path =
     r' v (if isBoolean' v then [] else error E path ''must be boolean'' v)"
| "validate E IsRegExp v path =
     r' v (if isRegExp' v then [] else error E path ''must be regular expression'' v)"
| "validate E IsUndefined v path =
     r' v (if isUndefined' v then [] else error E path ''must be undefined'' v)"
| "validate E IsInteger v path =
     r' v (if isInteger' v then [] else error E path ''must be integer'' v)"
| "validate E IsArray v path =
     r' v (if isArray' v then [] else error E path ''must be array'' v)"
| "validate E IsValidStatusCode v path =
     (v, if js_ge E v 100 \<and> js_le E v 599 then []
         else error E path ''must be valid status code'' v)"
| "validate E IsPositive v path =
     (v, if js_ge E v 0 then [] else error E path ''must be postive'' v)"
| "validate E (Obj o') v path =
     (if \<not> isPlainObject' v then r' v (error E path ''must be plain object'' v)
      else
        let rs = map (\<lambda>kp. (fst kp, validate E (snd kp) (get_prop v (fst kp)) (path @ [fst kp]))) o';
            conformed = foldl (\<lambda>acc kr. if fst (snd kr) \<noteq> VUndefined
                                          then set_prop acc (fst kr) (fst (snd kr)) else acc) [] rs;
            errors = concat (map (\<lambda>kr. snd (snd kr)) rs)
        in r' (VObj conformed) errors)"
| "validate E (Arr valuePredicate) v path =
     (case v of
        VArr xs \<Rightarrow>
          let rs = map (\<lambda>i. validate E valuePredicate (xs ! i) (path @ [show_nat i])) [0..<length xs]
          in r' (VArr (map fst rs)) (concat (map snd rs))
      | _ \<Rightarrow> r' v (error E path ''must be array'' v))"
| "validate E (Keyvals keyPredicate valuePredicate) v path =
     (case v of
        VObj kvs \<Rightarrow>
          if \<not> isPlainObject' v then r' v (error E path ''must be plain object'' v)
          else
            let rs = map (\<lambda>kv. (validate E keyPredicate (VStr (fst kv)) (path @ [''$key'']),
                                 validate E valuePredicate (snd kv) (path @ [fst kv]))) kvs;
                conformed = foldl (\<lambda>acc kr. set_prop acc (to_key E (fst (fst kr))) (fst (snd kr))) [] rs;
                errors = concat (map (\<lambda>kr. snd (fst kr) @ snd (snd kr)) rs)
            in r' (VObj conformed) errors
      | _ \<Rightarrow> r' v (error E path ''must be plain object'' v))"
| "validate E (Or predicates) v path =
     (case find (\<lambda>res. snd res = []) (map (\<lambda>p. validate E p v path) predicates) of
        Some res \<Rightarrow> res
      | None \<Rightarrow>
          r' v (error E path
                 (''must satisfy one of {'' @ join '', '' (map pred_name predicates) @ ''}'') v))"
| "validate E (And predicates) v path =
     (case foldl (\<lambda>st p. case st of
                            Inl errors \<Rightarrow> Inl errors
                          | Inr conformed \<Rightarrow>
                              (let ce = validate E p conformed path
                               in if snd ce \<noteq> [] then Inl (snd ce) else Inr (fst ce)))
                 (Inr v) predicates of
        Inl errors \<Rightarrow> r' v errors
      | Inr conformed \<Rightarrow> r' conformed [])"
| "validate E (Alias p message) v path =
     (let ce = validate E p v path
      in r' (fst ce) (if snd ce = [] then [] else error E path message v))"
| "validate E (Branch branchPredicates nextPredicates branchMessage) v path =
     branch_loop E branchPredicates nextPredicates branchMessage v path"
| "validate E (IsFunction predicate) v path =
     (if \<not> isFunction' v then r' v (error E path ''must be function'' v)
      else case predicate of
             None \<Rightarrow> r' v []
           | Some p \<Rightarrow> r' (VLate p path v) [])"
| "validate E (Exclusive groupA groupB) v path =
     (if \<not> isPlainObject' v then r' v (error E path ''must be plain object'' v)
      else
        let groupADefined = filter (\<lambda>e. \<not> isUndefined' (get_prop v e)) groupA;
            groupBDefined = filter (\<lambda>e. \<not> isUndefined' (get_prop v e)) groupB
        in if length groupADefined > 0 \<and> length groupBDefined > 0
           then r' v (error E path
                       (arrayOr groupADefined @ '' cannot be defined at the same time as ''
                          @ arrayOr groupBDefined) v)
           else r' v [])"
| "branch_loop E [] nextPredicates branchMessage v path =
     r' v (error E path branchMessage v)"
| "branch_loop E (b # bs) nextPredicates branchMessage v path =
     (let ce = validate E b v path
      in if snd ce = []
         then (case nextPredicates of
                 n # _ \<Rightarrow> validate E n (fst ce) path
               | [] \<Rightarrow> r' v (error E path branchMessage v))
         else branch_loop E bs (tl nextPredicates) branchMessage v path)"
  by pat_completeness auto
termination
  apply (relation "measure (case_sum (\<lambda>a. size (fst (snd a)))
                     (\<lambda>b. size_list size (fst (snd b)) + size_list size (fst (snd (snd b)))))")
  apply (auto simp: less_Suc_eq_le size_list_estimation' trans_le_add2 size_list_tl_le)
  done


text \<open>
  \<open>branch\<close> asserts, when a schema is built, that both lists have the same length, so
  the case of a gate without its next predicate does not arise for a schema the library
  can build.

  \<open>conform\<close> hands the conformed value back or raises a ValidationError listing every
  issue.
\<close>

definition conform :: "jsval \<times> string list \<Rightarrow> exn + jsval" where
  "conform ce =
     (if snd ce = [] then Inr (fst ce)
      else Inl (ValidationError
                  (''Validation failed. Resolve the following issues:'' @ [CHR 0x0A]
                     @ join [CHR 0x0A] (map (\<lambda>i. ''  * '' @ i) (snd ce)))))"

text \<open>\<open>[...path.slice(0, -1), `${path.slice(-1)[0] ?? ''}()`]\<close> in \<open>lateValidator\<close>\<close>

definition funcPath :: "path \<Rightarrow> path" where
  "funcPath path = butlast path @ [(if path = [] then [] else last path) @ ''()'']"

section \<open>Calling a callable\<close>

text \<open>
  A call \<open>f(...args)\<close>: the outcome is a value or a raised fault. The wrapper
  \<open>lateValidator\<close> calls the wrapped function and conforms what it returns against the
  inner predicate, under the path that ends in \<open>()\<close>.
\<close>

fun call :: "env \<Rightarrow> jsval \<Rightarrow> jsval list \<Rightarrow> exn + jsval" where
  "call E (VFun n i) args = call_fn E i args"
| "call E (VBuiltin n) args = call_builtin E n args"
| "call E (VLate p path f) args =
     (case call E f args of
        Inl e \<Rightarrow> Inl e
      | Inr v \<Rightarrow> conform (validate E p v (funcPath path)))"
| "call E _ args = Inl (TypeError ''not a function'')"

section \<open>Comparison and resolution (\<open>src/lib.js\<close>)\<close>

text \<open>
  \<open>safeInvoke\<close>: a value that is not a function is returned as it is; a function is
  called inside \<open>try\<close>, and any fault gives the default. The diagnostic streams
  (\<open>D\<close>, \<open>DM\<close>) are not modelled.
\<close>

definition safeInvoke :: "env \<Rightarrow> jsval \<Rightarrow> jsval \<Rightarrow> jsval list \<Rightarrow> jsval" where
  "safeInvoke E f defaultValue args =
     (if \<not> isFunction' f then f
      else case call E f args of
             Inr v \<Rightarrow> v
           | Inl e \<Rightarrow> defaultValue)"

text \<open>\<open>actual[i]\<close> on an array: \<open>undefined\<close> past the end.\<close>

definition idx :: "jsval list \<Rightarrow> nat \<Rightarrow> jsval" where
  "idx xs i = (if i < length xs then xs ! i else VUndefined)"

text \<open>
  \<open>desired.test(s)\<close> on a \<open>RegExp\<close>: with the flag \<open>g\<close> or \<open>y\<close> the search starts at the
  object's \<open>lastIndex\<close>, without them at 0. Such a call also writes \<open>lastIndex\<close> (the
  end of the match, or 0 when there is none) on a regular expression with one of these
  flags; \<open>RegExp_test\<close> is the verdict of one call on the object as it stands, and the
  write is not recorded, so a later call on the same object is described only for a
  regular expression that is not \<open>stateful\<close>.
\<close>

definition stateful :: "string \<Rightarrow> bool" where
  "stateful flags = (CHR ''g'' \<in> set flags \<or> CHR ''y'' \<in> set flags)"

definition RegExp_test :: "env \<Rightarrow> string \<Rightarrow> string \<Rightarrow> nat \<Rightarrow> string \<Rightarrow> bool" where
  "RegExp_test E source flags lastIndex s =
     regexp_test E source flags (if stateful flags then lastIndex else 0) s"

text \<open>
  \<open>compare\<close> is \<open>_compare\<close> with a trace line on a falsy result. It is defined by cases
  on \<open>desired\<close>; \<open>compare_source\<close> below gives back the chain of tests of the source in
  their order. The result is a JavaScript value: the branch of a callable returns what
  \<open>safeInvoke\<close> returns, and the loops read a nested result through \<open>!\<close>.
\<close>

function (sequential) compare :: "env \<Rightarrow> jsval \<Rightarrow> jsval \<Rightarrow> jsval" where
  "compare E VUndefined actual = VBool True"
| "compare E (VFun n i) actual = safeInvoke E (VFun n i) (VBool False) [actual]"
| "compare E (VLate p path f) actual = safeInvoke E (VLate p path f) (VBool False) [actual]"
| "compare E (VBuiltin n) actual = safeInvoke E (VBuiltin n) (VBool False) [actual]"
| "compare E (VObj kvs) actual =
     VBool (isPlainObject' (VObj kvs) \<and> isPlainObject' actual \<and>
            list_all (\<lambda>kv. truthy (compare E (snd kv) (get_prop actual (fst kv)))) kvs)"
| "compare E (VArr ds) actual =
     (case actual of
        VArr as \<Rightarrow> VBool (list_all (\<lambda>i. truthy (compare E (ds ! i) (idx as i))) [0..<length ds])
      | _ \<Rightarrow> VBool False)"
| "compare E (VBuf b) actual =
     (case actual of
        VBuf b' \<Rightarrow> VBool (b = b')
      | VStr s \<Rightarrow> VBool (utf8_decode E b = s)
      | _ \<Rightarrow> VBool False)"
| "compare E (VStr s) actual =
     (case actual of
        VBuf b \<Rightarrow> VBool (s = utf8_decode E b)
      | VStr s' \<Rightarrow> VBool (s = s')
      | _ \<Rightarrow> VBool False)"
| "compare E (VRegExp re fl li) actual =
     (case actual of
        VStr s \<Rightarrow> VBool (RegExp_test E re fl li s)
      | VBuf b \<Rightarrow> VBool (RegExp_test E re fl li (utf8_decode E b))
      | _ \<Rightarrow> VBool False)"
| "compare E _ actual = VBool False"
  by pat_completeness auto
termination
  apply (relation "measure (\<lambda>a. size (fst (snd a)))")
  apply (auto simp: less_Suc_eq_le size_list_estimation' size_list_nth_le)
  done

fun toStatusCode :: "env \<Rightarrow> jsval \<Rightarrow> jsval list \<Rightarrow> int" where
  "toStatusCode E v args =
     (let v' = safeInvoke E v VUndefined args in if isInteger' v' then int_of v' else 200)"

fun toBuffer :: "env \<Rightarrow> jsval \<Rightarrow> jsval list \<Rightarrow> bytes" where
  "toBuffer E v args =
     (case safeInvoke E v VUndefined args of
        VBuf b \<Rightarrow> b
      | VStr s \<Rightarrow> utf8_encode E s
      | _ \<Rightarrow> [])"

text \<open>\<open>mapObj\<close> is \<open>Object.fromEntries(Object.entries(o).map(m))\<close>.\<close>

fun toHeaders :: "env \<Rightarrow> jsval \<Rightarrow> jsval list \<Rightarrow> (string \<times> bytes) list" where
  "toHeaders E v args =
     (let v' = safeInvoke E v VUndefined args
      in if isPlainObject' v'
         then (case v' of VObj kvs \<Rightarrow> map (\<lambda>kv. (fst kv, toBuffer E (snd kv) args)) kvs | _ \<Rightarrow> [])
         else [])"

fun toDelay :: "env \<Rightarrow> jsval \<Rightarrow> jsval list \<Rightarrow> int" where
  "toDelay E v args =
     (let v' = safeInvoke E v VUndefined args in if isInteger' v' then int_of v' else 0)"

fun toDestroySocket :: "env \<Rightarrow> jsval \<Rightarrow> jsval list \<Rightarrow> bool" where
  "toDestroySocket E v args =
     (case safeInvoke E v VUndefined args of VBool b \<Rightarrow> b | _ \<Rightarrow> False)"

record http_resolved =
  body :: bytes
  statusCode :: int
  headers :: "(string \<times> bytes) list"
  headerDelay :: int
  bodyDelay :: int
  destroySocket :: bool

definition toHTTPRes :: "env \<Rightarrow> jsval \<Rightarrow> jsval \<Rightarrow> jsval \<Rightarrow> http_resolved" where
  "toHTTPRes E res req reqBody =
     (let res' = safeInvoke E res VUndefined [req, reqBody]
      in \<lparr> body = toBuffer E (get_prop res' ''body'') [req, reqBody],
           statusCode = toStatusCode E (get_prop res' ''statusCode'') [req, reqBody],
           headers = toHeaders E (get_prop res' ''headers'') [req, reqBody],
           headerDelay = toDelay E (get_prop res' ''headerDelay'') [req, reqBody],
           bodyDelay = toDelay E (get_prop res' ''bodyDelay'') [req, reqBody],
           destroySocket = toDestroySocket E (get_prop res' ''destroySocket'') [req, reqBody] \<rparr>)"

record tcp_resolved =
  tcp_body :: bytes
  tcp_bodyDelay :: int
  tcp_destroySocket :: bool

definition toTCPRes :: "env \<Rightarrow> jsval \<Rightarrow> jsval \<Rightarrow> tcp_resolved" where
  "toTCPRes E res req =
     (let res1 = safeInvoke E res VUndefined [req];
          res' = (if \<not> isPlainObject' res1 then VObj [(''body'', res1)] else res1)
      in \<lparr> tcp_body = toBuffer E (get_prop res' ''body'') [req],
           tcp_bodyDelay = toDelay E (get_prop res' ''bodyDelay'') [req],
           tcp_destroySocket = toDestroySocket E (get_prop res' ''destroySocket'') [req] \<rparr>)"

text \<open>\<open>printMock(mockType)(obj)\<close>, over the entries of \<open>obj\<close>.\<close>

definition printMock :: "env \<Rightarrow> string \<Rightarrow> (string \<times> jsval) list \<Rightarrow> string" where
  "printMock E mockType obj =
     mockType @ ''{''
       @ join '' '' (map (\<lambda>kv. fst kv @ ''='' @ valueToString E (snd kv))
                       (filter (\<lambda>kv. \<not> isUndefined' (snd kv)) obj))
       @ ''}''"

section \<open>The schemas (\<open>src/http/schema.js\<close>, \<open>src/tcp/schema.js\<close>)\<close>

definition branchWithFunction :: "pred list \<Rightarrow> pred list \<Rightarrow> string \<Rightarrow> pred" where
  "branchWithFunction branchPredicates nextPredicates branchMessage =
     (let valuePredicate = Branch branchPredicates nextPredicates branchMessage
      in Branch (branchPredicates @ [IsFunction (Some valuePredicate)])
                (nextPredicates @ [Always])
                (branchMessage @ '' or function returning same''))"

definition optComparable :: pred where
  "optComparable =
     Alias (Or [IsString, IsBuffer, IsRegExp, IsFunction (Some IsBoolean), IsUndefined])
       ''if defined must be string, buffer, regular expression, or function''"

definition headerComparable :: pred where
  "headerComparable =
     Branch [optComparable, IsArray] [Always, Arr optComparable]
       ''must be string, buffer, regular expresson, function, or array of same''"

definition reqHeaders :: pred where
  "reqHeaders =
     Branch [IsPlainObject, IsFunction (Some IsBoolean), IsUndefined]
            [Keyvals Always headerComparable, Always, Always]
       ''if defined must be plain object or function''"

definition optBufferable :: pred where
  "optBufferable =
     Alias (Or [IsString, IsBuffer, IsUndefined]) ''if defined must be string or buffer''"

definition funcOptBufferable :: pred where
  "funcOptBufferable =
     Alias (Or [optBufferable, IsFunction (Some optBufferable)])
       ''if defined must be string, buffer, or function returning same''"

definition isValidResHeaders :: pred where
  "isValidResHeaders = Keyvals Always funcOptBufferable"

definition resHeaders :: pred where
  "resHeaders =
     branchWithFunction [IsPlainObject, IsUndefined] [isValidResHeaders, Always]
       ''if defined must be plain object''"

definition statusCode_schema :: pred where
  "statusCode_schema =
     branchWithFunction [And [IsInteger, IsValidStatusCode], IsUndefined] [Always, Always]
       ''if defined must be valid HTTP status code''"

definition isPositiveInt :: pred where
  "isPositiveInt = And [IsInteger, IsPositive]"

definition delay :: pred where
  "delay =
     branchWithFunction [isPositiveInt, IsUndefined] [Always, Always]
       ''if defined must be positive integer''"

definition destroySocket_schema :: pred where
  "destroySocket_schema =
     branchWithFunction [IsBoolean, IsUndefined] [Always, Always] ''if defined must be boolean''"

definition http_reqObj :: pred where
  "http_reqObj =
     Obj [(''method'', optComparable), (''pathname'', optComparable), (''query'', optComparable),
          (''headers'', reqHeaders), (''body'', optComparable)]"

definition http_req :: pred where
  "http_req =
     Branch [IsPlainObject, IsFunction (Some IsBoolean), IsUndefined] [http_reqObj, Always, Always]
       ''if defined must be plain object or function''"

definition http_resObj :: pred where
  "http_resObj =
     Obj [(''body'', funcOptBufferable), (''headers'', resHeaders),
          (''statusCode'', statusCode_schema), (''headerDelay'', delay),
          (''bodyDelay'', delay), (''destroySocket'', destroySocket_schema)]"

definition http_res :: pred where
  "http_res =
     branchWithFunction [IsPlainObject, IsUndefined] [http_resObj, Always]
       ''if defined must be plain object''"

definition http_mockSchema :: pred where
  "http_mockSchema =
     Branch [IsPlainObject, IsUndefined] [Obj [(''req'', http_req), (''res'', http_res)], Always]
       ''if defined must be plain object''"

definition port :: pred where
  "port = Alias (Or [isPositiveInt, IsUndefined]) ''if defined must be positive integer''"

definition httpSchema :: pred where
  "httpSchema =
     Branch [IsPlainObject, IsUndefined] [Obj [(''port'', port)], Always]
       ''if defined must be plain object''"

definition tcp_resObj :: pred where
  "tcp_resObj =
     Obj [(''body'', funcOptBufferable), (''bodyDelay'', delay),
          (''destroySocket'', destroySocket_schema)]"

definition tcp_res :: pred where
  "tcp_res =
     branchWithFunction [IsPlainObject, optBufferable] [tcp_resObj, Always]
       ''if defined must be object, string, or buffer''"

definition connectionPinned :: pred where
  "connectionPinned =
     Alias (Exclusive [''init''] [''_pinnedTo''])
       ''init not supported on a connection-pinned mock''"

definition mockSchemaObj :: pred where
  "mockSchemaObj =
     And [Obj [(''_pinnedTo'', Or [IsUndefined, IsPlainObject]), (''init'', optBufferable),
               (''req'', optComparable), (''res'', tcp_res)],
          Exclusive [''init''] [''req'', ''res''],
          connectionPinned]"

definition tcp_mockSchema :: pred where
  "tcp_mockSchema =
     Branch [IsPlainObject, IsUndefined] [mockSchemaObj, Always]
       ''if defined must be plain object''"

definition tcpSchema :: pred where
  "tcpSchema =
     Branch [IsPlainObject, IsUndefined] [Obj [(''port'', port)], Always]
       ''if defined must be plain object''"

section \<open>Mocks and their lifecycle\<close>

text \<open>
  A \<open>Mock\<close> is a closure over the conformed \<open>options\<close>, the declaration \<open>o\<close> as it was
  passed (\<open>o\<close> in the source, which \<open>toString\<close> prints) and the flag \<open>done\<close>.
\<close>

record mock =
  options :: jsval
  decl :: jsval
  is_done :: bool

definition isPending :: "'a mock_scheme \<Rightarrow> bool" where
  "isPending m = (is_done m = False)"

text \<open>\<open>conform(mockSchema(o, ['options'])) ?? {}\<close>\<close>

definition conformed_options :: "env \<Rightarrow> pred \<Rightarrow> jsval \<Rightarrow> exn + jsval" where
  "conformed_options E schema o' =
     (case conform (validate E schema o' [''options'']) of
        Inl e \<Rightarrow> Inl e
      | Inr c \<Rightarrow> Inr (if c = VUndefined \<or> c = VNull then VObj [] else c))"

text \<open>
  \<open>reset\<close> is the same function in both mock sets. Its argument is destructured with the
  default \<open>{}\<close>; \<open>null\<close> cannot be destructured. \<open>pending.join(', ')\<close> prints every mock
  with its \<open>toString\<close>. The result is the new value of \<open>mocks\<close> and the fault raised,
  if any.
\<close>

definition reset_message :: "string list \<Rightarrow> string" where
  "reset_message printed = ''The following mocks are still pending: '' @ join '', '' printed"

definition reset :: "('m \<Rightarrow> bool) \<Rightarrow> ('m \<Rightarrow> string) \<Rightarrow> 'm list \<Rightarrow> jsval \<Rightarrow> 'm list \<times> exn option" where
  "reset pending_of print mocks arg =
     (if arg = VNull then (mocks, Some (TypeError ''Cannot destructure''))
      else
        let t = get_prop arg ''throwOnPending'';
            throwOnPending = (if t = VUndefined then VBool True else t);
            pending = filter pending_of mocks
        in if length pending \<noteq> 0 \<and> truthy throwOnPending
           then ([], Some (PendingMockError (reset_message (map print pending))))
           else ([], None))"

section \<open>The HTTP server (\<open>src/http/index.js\<close>)\<close>

text \<open>
  The request as Node hands it to the handler: method, raw URL, version, the raw header
  list (names and values alternating, in wire case), the \<open>host\<close> header if any, and the
  request object itself as the callables of a response descriptor receive it.
\<close>

record raw_req =
  req_method :: string
  req_url :: string
  httpVersion :: string
  rawHeaders :: "string list"
  req_host :: "string option"
  incoming :: jsval

text \<open>
  \<open>headers(req)\<close>: each name is read on the object under construction with
  \<open>res[currentKey]\<close>, which also sees what an object literal inherits; the third branch
  spreads the value found, which raises unless that value is an array.
\<close>

fun headers_of :: "string list \<Rightarrow> (string \<times> jsval) list \<Rightarrow> exn + (string \<times> jsval) list" where
  "headers_of (currentKey # v # rest) res =
     (let cur = get_prop (VObj res) currentKey
      in if isUndefined' cur then headers_of rest (set_prop res currentKey (VStr v))
         else if isString' cur then headers_of rest (set_prop res currentKey (VArr [cur, VStr v]))
         else (case cur of
                 VArr vs \<Rightarrow> headers_of rest (set_prop res currentKey (VArr (vs @ [VStr v])))
               | _ \<Rightarrow> Inl (TypeError ''res[currentKey] is not iterable'')))"
| "headers_of _ res = Inr res"

record parsed_req =
  p_method :: string
  p_pathname :: string
  p_query :: string
  p_headers :: "(string \<times> jsval) list"

definition parseReq :: "env \<Rightarrow> raw_req \<Rightarrow> exn + parsed_req" where
  "parseReq E req =
     (case url_parse E (req_url req)
             (''http://'' @ (case req_host req of None \<Rightarrow> ''undefined'' | Some h \<Rightarrow> h)) of
        None \<Rightarrow> Inl (TypeError ''Invalid URL'')
      | Some parsed \<Rightarrow>
          (case headers_of (rawHeaders req) [] of
             Inl e \<Rightarrow> Inl e
           | Inr hs \<Rightarrow> Inr \<lparr> p_method = req_method req, p_pathname = fst parsed,
                             p_query = snd parsed, p_headers = hs \<rparr>))"

definition printReq :: "raw_req \<Rightarrow> string" where
  "printReq req = ''['' @ req_method req @ '' '' @ req_url req @ '' HTTP/'' @ httpVersion req @ '']''"

definition printHTTP :: "env \<Rightarrow> jsval \<Rightarrow> string" where
  "printHTTP E o' = printMock E ''HTTP'' [(''req'', get_prop o' ''req''), (''res'', get_prop o' ''res'')]"

definition http_Mock :: "env \<Rightarrow> jsval \<Rightarrow> exn + mock" where
  "http_Mock E o' =
     (case conformed_options E http_mockSchema o' of
        Inl e \<Rightarrow> Inl e
      | Inr opts \<Rightarrow> Inr \<lparr> options = opts, decl = o', is_done = False \<rparr>)"

text \<open>The value \<open>compare\<close> receives as \<open>actual\<close> in \<open>isMatch\<close>.\<close>

definition request_value :: "parsed_req \<Rightarrow> bytes \<Rightarrow> jsval" where
  "request_value p reqBody =
     VObj [(''method'', VStr (p_method p)), (''pathname'', VStr (p_pathname p)),
           (''query'', VStr (p_query p)), (''headers'', VObj (p_headers p)),
           (''body'', VBuf reqBody)]"

definition http_isMatch :: "env \<Rightarrow> mock \<Rightarrow> raw_req \<Rightarrow> bytes \<Rightarrow> exn + jsval" where
  "http_isMatch E m req reqBody =
     (if \<not> isPending m then Inr (VBool False)
      else case parseReq E req of
             Inl e \<Rightarrow> Inl e
           | Inr p \<Rightarrow> Inr (compare E (get_prop (options m) ''req'') (request_value p reqBody)))"

text \<open>
  \<open>mocks.find((m) => m.isMatch(req, reqBody))\<close>: the position of the first mock whose
  \<open>isMatch\<close> is truthy; a fault of \<open>isMatch\<close> ends the search.
\<close>

fun http_find :: "env \<Rightarrow> mock list \<Rightarrow> raw_req \<Rightarrow> bytes \<Rightarrow> nat \<Rightarrow> exn + nat option" where
  "http_find E [] req reqBody i = Inr None"
| "http_find E (m # ms) req reqBody i =
     (case http_isMatch E m req reqBody of
        Inl e \<Rightarrow> Inl e
      | Inr v \<Rightarrow> if truthy v then Inr (Some i) else http_find E ms req reqBody (Suc i))"

text \<open>
  What the handler does to the response: it serves the resolved descriptor of the mock
  found (head after \<open>headerDelay\<close>, then after \<open>bodyDelay\<close> the body, or the socket is
  destroyed), or writes the fallback, or, when a fault reaches its \<open>catch\<close>, only prints
  the fault and writes nothing. A fault reaches the \<open>catch\<close> from the search, or from
  \<open>res.writeHead\<close> when Node refuses the resolved status code or a resolved header; the
  mock found is by then marked as matched.
\<close>

datatype http_out =
    Served http_resolved
  | Fallback int "(string \<times> string) list" string
  | Caught exn

definition http_handler :: "env \<Rightarrow> mock list \<Rightarrow> raw_req \<Rightarrow> bytes \<Rightarrow> mock list \<times> http_out" where
  "http_handler E mocks req reqBody =
     (case http_find E mocks req reqBody 0 of
        Inl e \<Rightarrow> (mocks, Caught e)
      | Inr (Some i) \<Rightarrow>
          (let m = mocks ! i;
               r = toHTTPRes E (get_prop (options m) ''res'') (incoming req) (VBuf reqBody)
           in (mocks[i := m\<lparr>is_done := True\<rparr>],
               case writeHead_fault E (statusCode r) (headers r) of
                 Some e \<Rightarrow> Caught e
               | None \<Rightarrow> Served r))
      | Inr None \<Rightarrow>
          (mocks, Fallback 404 [(''Content-Type'', ''text/plain'')]
                    (''No matching mock was found for '' @ printReq req)))"

definition http_reset :: "env \<Rightarrow> mock list \<Rightarrow> jsval \<Rightarrow> mock list \<times> exn option" where
  "http_reset E mocks arg = reset isPending (\<lambda>m. printHTTP E (decl m)) mocks arg"

section \<open>The TCP server (\<open>src/tcp/index.js\<close>)\<close>

text \<open>
  A TCP mock also closes over \<open>isHeadMock\<close> and \<open>pinnedTo\<close>, a record
  \<open>{ connection }\<close> that a head and the mocks made with its \<open>mock\<close> function share
  and that \<open>match\<close> writes. The sharing is modelled with a store: \<open>s_pins\<close> holds the
  value of \<open>connection\<close> of every such record and a mock holds the address of its
  record. Mock objects live in \<open>s_heap\<close> (a handle returned to the caller stays usable
  after \<open>reset\<close>), and \<open>s_mocks\<close> is the array \<open>mocks\<close> of the mock set, by identity.
  A connection is identified by a number; as a value it is the socket \<open>VOther c\<close>.
  \<open>s_recv c\<close> is the variable \<open>recv\<close> of the handler of connection \<open>c\<close>.
\<close>

record tcp_mock = mock +
  isHeadMock :: bool
  pinnedTo :: nat

record tcp_state =
  s_heap :: "tcp_mock list"
  s_pins :: "jsval list"
  s_mocks :: "nat list"
  s_connections :: "nat list"
  s_recv :: "nat \<Rightarrow> bytes option"

definition tcp_init :: tcp_state where
  "tcp_init = \<lparr> s_heap = [], s_pins = [], s_mocks = [], s_connections = [], s_recv = (\<lambda>c. None) \<rparr>"

datatype event =
    Add jsval
  | Child nat jsval
  | Connect nat
  | Data nat bytes
  | Reset jsval

datatype tcp_out =
    Registered nat
  | Raised exn
  | WroteInit nat jsval
  | Answered nat tcp_resolved
  | NoMatch
  | Quiet

definition printTCP :: "env \<Rightarrow> jsval \<Rightarrow> string" where
  "printTCP E o' =
     printMock E ''TCP'' [(''init'', get_prop o' ''init''), (''req'', get_prop o' ''req''),
                          (''res'', get_prop o' ''res'')]"

text \<open>The own enumerable properties \<open>{...o}\<close> copies.\<close>

fun spread :: "jsval \<Rightarrow> (string \<times> jsval) list" where
  "spread (VObj kvs) = kvs"
| "spread (VArr xs) = map (\<lambda>i. (show_nat i, xs ! i)) [0..<length xs]"
| "spread (VStr s) = map (\<lambda>i. (show_nat i, VStr [s ! i])) [0..<length s]"
| "spread (VBuf b) = map (\<lambda>i. (show_nat i, VNum (of_nat (unat (b ! i))))) [0..<length b]"
| "spread _ = []"

text \<open>
  \<open>MockSet.add\<close> with the constructor \<open>Mock\<close>. A declaration without \<open>_pinnedTo\<close> makes
  a head with a fresh record \<open>{ connection: null }\<close>. Otherwise the mock is a tail of the
  record passed: \<open>ref\<close> is the address of that record when it is the one of an existing
  mock (the call came from \<open>Mock.mock\<close>); a record the caller wrote out is new to the
  store and holds what the caller put under \<open>connection\<close>.
\<close>

definition tcp_add :: "env \<Rightarrow> tcp_state \<Rightarrow> jsval \<Rightarrow> nat option \<Rightarrow> tcp_state \<times> tcp_out" where
  "tcp_add E st o' ref =
     (case conformed_options E tcp_mockSchema o' of
        Inl e \<Rightarrow> (st, Raised e)
      | Inr opts \<Rightarrow>
          (let pin = get_prop opts ''_pinnedTo'';
               fresh = (pin = VUndefined \<or> ref = None);
               a = (if fresh then length (s_pins st) else the ref);
               m = \<lparr> options = opts, decl = o', is_done = False,
                     isHeadMock = (pin = VUndefined), pinnedTo = a \<rparr>
           in (st\<lparr> s_heap := s_heap st @ [m],
                   s_pins := (if fresh
                              then s_pins st @ [if pin = VUndefined then VNull
                                                else get_prop pin ''connection'']
                              else s_pins st),
                   s_mocks := s_mocks st @ [length (s_heap st)] \<rparr>,
               Registered (length (s_heap st)))))"

text \<open>
  \<open>Mock.mock\<close> of the mock \<open>h\<close>: \<open>addToMockSet({ ...o, _pinnedTo: pinnedTo })\<close>. The
  record is shown to the validator with its current content.
\<close>

definition tcp_child :: "env \<Rightarrow> tcp_state \<Rightarrow> nat \<Rightarrow> jsval \<Rightarrow> tcp_state \<times> tcp_out" where
  "tcp_child E st h o' =
     (if h < length (s_heap st)
      then (let a = pinnedTo (s_heap st ! h)
            in tcp_add E st
                 (VObj (AList.update ''_pinnedTo'' (VObj [(''connection'', s_pins st ! a)]) (spread o')))
                 (Some a))
      else (st, Quiet))"

definition isInit :: "'a mock_scheme \<Rightarrow> bool" where
  "isInit m = (get_prop (options m) ''init'' \<noteq> VUndefined)"

definition tcp_match :: "tcp_state \<Rightarrow> nat \<Rightarrow> nat \<Rightarrow> tcp_state" where
  "tcp_match st i connection =
     (let m = s_heap st ! i
      in st\<lparr> s_heap := (s_heap st)[i := m\<lparr>is_done := True\<rparr>],
              s_pins := (if isHeadMock m then (s_pins st)[pinnedTo m := VOther connection]
                         else s_pins st) \<rparr>)"

definition tcp_isMatch :: "env \<Rightarrow> tcp_state \<Rightarrow> tcp_mock \<Rightarrow> bytes \<Rightarrow> nat \<Rightarrow> bool" where
  "tcp_isMatch E st m bytes connection =
     (if isInit m \<or> \<not> isPending m \<or> \<not> truthy (compare E (get_prop (options m) ''req'') (VBuf bytes))
      then False
      else if isHeadMock m then True
      else (s_pins st ! pinnedTo m = VOther connection))"

text \<open>\<open>handler(conn)\<close> up to the registration of the listeners.\<close>

definition tcp_connect :: "env \<Rightarrow> tcp_state \<Rightarrow> nat \<Rightarrow> tcp_state \<times> tcp_out" where
  "tcp_connect E st conn =
     (let st1 = st\<lparr> s_connections := s_connections st @ [conn],
                     s_recv := (s_recv st)(conn \<mapsto> []) \<rparr>
      in case find (\<lambda>i. isInit (s_heap st1 ! i) \<and> isPending (s_heap st1 ! i)) (s_mocks st1) of
           Some iM \<Rightarrow> (tcp_match st1 iM conn, WroteInit iM (get_prop (options (s_heap st1 ! iM)) ''init''))
         | None \<Rightarrow> (st1, Quiet))"

text \<open>
  The listener of \<open>data\<close>, up to its first \<open>await\<close>: everything it does to the state
  happens before. \<open>Answered i r\<close> stands for what follows (the wait of \<open>bodyDelay\<close>, then
  the write of the body or the destruction of the socket).
\<close>

definition tcp_data :: "env \<Rightarrow> tcp_state \<Rightarrow> nat \<Rightarrow> bytes \<Rightarrow> tcp_state \<times> tcp_out" where
  "tcp_data E st conn b =
     (case s_recv st conn of
        None \<Rightarrow> (st, Quiet)
      | Some old \<Rightarrow>
          (let recv = old @ b;
               st1 = st\<lparr> s_recv := (s_recv st)(conn \<mapsto> recv) \<rparr>
           in case find (\<lambda>i. tcp_isMatch E st1 (s_heap st1 ! i) recv conn) (s_mocks st1) of
                Some i \<Rightarrow>
                  (let st2 = tcp_match st1 i conn;
                       res = toTCPRes E (get_prop (options (s_heap st1 ! i)) ''res'') (VBuf recv)
                   in (st2\<lparr> s_recv := (s_recv st2)(conn \<mapsto> []) \<rparr>, Answered i res))
              | None \<Rightarrow> (st1, NoMatch)))"

definition tcp_reset :: "env \<Rightarrow> tcp_state \<Rightarrow> jsval \<Rightarrow> tcp_state \<times> tcp_out" where
  "tcp_reset E st arg =
     (let res = reset (\<lambda>i. isPending (s_heap st ! i)) (\<lambda>i. printTCP E (decl (s_heap st ! i)))
                  (s_mocks st) arg
      in (st\<lparr> s_mocks := fst res \<rparr>, case snd res of Some e \<Rightarrow> Raised e | None \<Rightarrow> Quiet))"

fun tcp_step :: "env \<Rightarrow> tcp_state \<Rightarrow> event \<Rightarrow> tcp_state \<times> tcp_out" where
  "tcp_step E st (Add o') = tcp_add E st o' None"
| "tcp_step E st (Child h o') = tcp_child E st h o'"
| "tcp_step E st (Connect c) = tcp_connect E st c"
| "tcp_step E st (Data c b) = tcp_data E st c b"
| "tcp_step E st (Reset arg) = tcp_reset E st arg"

text \<open>A run of the server: the events in order, each with what it produced.\<close>

fun tcp_run :: "env \<Rightarrow> tcp_state \<Rightarrow> event list \<Rightarrow> (event \<times> tcp_out) list \<times> tcp_state" where
  "tcp_run E st [] = ([], st)"
| "tcp_run E st (ev # evs) =
     (let so = tcp_step E st ev; rest = tcp_run E (fst so) evs
      in ((ev, snd so) # fst rest, snd rest))"

section \<open>A concrete environment\<close>

text \<open>
  An environment to evaluate the definitions on concrete inputs: buffers decode byte by
  byte, a regular expression matches when the search starts inside the string and what
  is left of the string from there is equal to its source, the URL \<open>//\<close> does not parse,
  \<open>res.writeHead\<close> refuses a header name that is empty or holds a space, and the
  caller's functions are: 0 raises, 1 returns the string
  \<open>yes\<close>, 2 returns \<open>true\<close>, 3 returns \<open>false\<close>, 4 returns the number 99999, 
  5 tells whether its first argument is \<open>undefined\<close>, and 6 returns the number -5.
\<close>

definition demo_call :: "nat \<Rightarrow> jsval list \<Rightarrow> exn + jsval" where
  "demo_call i args =
     (if i = 0 then Inl (Thrown (VStr ''boom''))
      else if i = 1 then Inr (VStr ''yes'')
      else if i = 2 then Inr (VBool True)
      else if i = 3 then Inr (VBool False)
      else if i = 4 then Inr (VNum 99999)
      else if i = 5 then Inr (VBool (case args of [] \<Rightarrow> True | a # _ \<Rightarrow> a = VUndefined))
      else if i = 6 then Inr (VNum (- 5))
      else Inr VUndefined)"

definition demo_env :: env where
  "demo_env =
     \<lparr> inspect = (\<lambda>v. ''?''),
       valueToString = (\<lambda>v. case v of VStr s \<Rightarrow> [CHR 0x27] @ s @ [CHR 0x27] | _ \<Rightarrow> ''?''),
       utf8_decode = map (\<lambda>b. char_of (unat b)),
       utf8_encode = map (\<lambda>c. of_nat (of_char c)),
       regexp_test = (\<lambda>re fl start s. start \<le> length s \<and> drop start s = re),
       to_number = (\<lambda>v. VNaN),
       url_parse = (\<lambda>url base. if url = ''//'' then None
                                else Some (takeWhile (\<lambda>c. c \<noteq> CHR ''?'') url,
                                           dropWhile (\<lambda>c. c \<noteq> CHR ''?'') url)),
       writeHead_fault = (\<lambda>sc hs. if list_ex (\<lambda>kv. fst kv = [] \<or> CHR '' '' \<in> set (fst kv)) hs
                                  then Some (TypeError ''Header name must be a valid HTTP token'')
                                  else None),
       call_fn = demo_call,
       call_builtin = (\<lambda>n args. Inl (TypeError ''unsupported'')) \<rparr>"

section \<open>Vocabulary of the properties\<close>

text \<open>The defaults of the HTTP resolver, and a callable that raises on given arguments.\<close>

definition http_defaults :: http_resolved where
  "http_defaults =
     \<lparr> body = [], statusCode = 200, headers = [], headerDelay = 0, bodyDelay = 0,
       destroySocket = False \<rparr>"

definition faults :: "env \<Rightarrow> jsval \<Rightarrow> jsval list \<Rightarrow> bool" where
  "faults E f args = (isFunction' f \<and> (case call E f args of Inl e \<Rightarrow> True | Inr v \<Rightarrow> False))"

definition http_fields :: "string list" where
  "http_fields = [''body'', ''statusCode'', ''headers'', ''headerDelay'', ''bodyDelay'', ''destroySocket'']"

text \<open>
  A mock that the HTTP search takes for a parsed request: it is pending and \<open>compare\<close>
  of its request predicate with the parsed request is truthy.
\<close>

definition satisfied :: "env \<Rightarrow> mock \<Rightarrow> parsed_req \<Rightarrow> bytes \<Rightarrow> bool" where
  "satisfied E m p reqBody =
     (isPending m \<and> truthy (compare E (get_prop (options m) ''req'') (request_value p reqBody)))"

text \<open>
  The comparator as the specification words it, rule by rule and in its order, with a
  truth value as result. A map is what the library calls a plain object; a key that
  \<open>actual\<close> does not have is compared as absent.
\<close>

definition entries :: "jsval \<Rightarrow> (string \<times> jsval) list" where
  "entries v = (case v of VObj kvs \<Rightarrow> kvs | _ \<Rightarrow> [])"

definition elements :: "jsval \<Rightarrow> jsval list" where
  "elements v = (case v of VArr xs \<Rightarrow> xs | _ \<Rightarrow> [])"

definition bytes_of :: "jsval \<Rightarrow> bytes" where
  "bytes_of v = (case v of VBuf b \<Rightarrow> b | _ \<Rightarrow> [])"

definition string_of :: "jsval \<Rightarrow> string" where
  "string_of v = (case v of VStr s \<Rightarrow> s | _ \<Rightarrow> [])"

text \<open>
  \<open>test E d s\<close> is \<open>d.test(s)\<close> on the object as it stands; \<open>matches E d s\<close> tells
  whether the regular expression \<open>d\<close> matches \<open>s\<close>, the search starting at 0.
\<close>

definition test :: "env \<Rightarrow> jsval \<Rightarrow> string \<Rightarrow> bool" where
  "test E d s = (case d of VRegExp re fl li \<Rightarrow> RegExp_test E re fl li s | _ \<Rightarrow> False)"











text \<open>
  The conformed object of \<open>obj(o)\<close> on a plain object, for a schema whose keys are
  distinct (they are the keys of an object) and none of which is \<open>__proto__\<close>: the
  conformed fields that are not \<open>undefined\<close>, in the order of the schema.
\<close>

definition obj_fields :: "env \<Rightarrow> (string \<times> pred) list \<Rightarrow> jsval \<Rightarrow> path \<Rightarrow> (string \<times> jsval) list" where
  "obj_fields E ps v path =
     map (\<lambda>kp. (fst kp, fst (validate E (snd kp) (get_prop v (fst kp)) (path @ [fst kp])))) ps"

text \<open>
  The history of a connection in a run. An entry of the run starts the buffer of
  connection \<open>c\<close> afresh when it is the opening of \<open>c\<close> or a chunk on \<open>c\<close> that a mock
  answered; \<open>since_fresh c tr\<close> is the part of the run after the last such entry, and
  \<open>chunk_of c\<close> the bytes an entry delivers on \<open>c\<close>.
\<close>

definition answered :: "tcp_out \<Rightarrow> bool" where
  "answered out = (case out of Answered i res \<Rightarrow> True | _ \<Rightarrow> False)"

definition fresh :: "nat \<Rightarrow> event \<times> tcp_out \<Rightarrow> bool" where
  "fresh c x =
     (case fst x of
        Connect c' \<Rightarrow> c' = c
      | Data c' b \<Rightarrow> c' = c \<and> answered (snd x)
      | _ \<Rightarrow> False)"

definition chunk_of :: "nat \<Rightarrow> event \<times> tcp_out \<Rightarrow> bytes" where
  "chunk_of c x = (case fst x of Data c' b \<Rightarrow> if c' = c then b else [] | _ \<Rightarrow> [])"

definition since_fresh :: "nat \<Rightarrow> (event \<times> tcp_out) list \<Rightarrow> (event \<times> tcp_out) list" where
  "since_fresh c tr = rev (takeWhile (\<lambda>x. \<not> fresh c x) (rev tr))"

text \<open>
  What holds of the mock objects and pinning records in every state the TCP server
  reaches: every mock's record is in the store; two heads never share a record; the
  record of a pending head still holds \<open>null\<close>; the record of a matched tail holds a
  connection; the array of mocks holds existing mocks; an init mock is a head.
\<close>

definition tcp_inv :: "tcp_state \<Rightarrow> bool" where
  "tcp_inv st =
     ((\<forall>i < length (s_heap st). pinnedTo (s_heap st ! i) < length (s_pins st))
      \<and> (\<forall>i < length (s_heap st). \<forall>j < length (s_heap st).
            isHeadMock (s_heap st ! i) \<and> isHeadMock (s_heap st ! j)
            \<and> pinnedTo (s_heap st ! i) = pinnedTo (s_heap st ! j) \<longrightarrow> i = j)
      \<and> (\<forall>i < length (s_heap st).
            isHeadMock (s_heap st ! i) \<and> s_pins st ! pinnedTo (s_heap st ! i) \<noteq> VNull
            \<longrightarrow> is_done (s_heap st ! i))
      \<and> (\<forall>i < length (s_heap st).
            \<not> isHeadMock (s_heap st ! i) \<and> is_done (s_heap st ! i)
            \<longrightarrow> (\<exists>c. s_pins st ! pinnedTo (s_heap st ! i) = VOther c))
      \<and> (\<forall>i \<in> set (s_mocks st). i < length (s_heap st))
      \<and> (\<forall>i < length (s_heap st). isInit (s_heap st ! i) \<longrightarrow> isHeadMock (s_heap st ! i)))"

text \<open>
  A declaration made of data only: no callable anywhere in it, and every object in it
  has distinct property names, none of them \<open>__proto__\<close> (the assignment to that name
  changes the prototype, which is not modelled). On such values a predicate
  \<open>passes_through\<close> when it conforms every value to itself, and is \<open>stable\<close> when
  validating again what it conformed without errors gives the same value and no errors.
\<close>

fun plain_data :: "jsval \<Rightarrow> bool" where
  "plain_data (VObj kvs) =
     (distinct (map fst kvs) \<and> ''__proto__'' \<notin> fst ` set kvs
      \<and> list_all (\<lambda>kv. plain_data (snd kv)) kvs)"
| "plain_data (VArr xs) = list_all plain_data xs"
| "plain_data (VFun n i) = False"
| "plain_data (VLate p path f) = False"
| "plain_data (VBuiltin n) = False"
| "plain_data _ = True"

definition passes_through :: "env \<Rightarrow> pred \<Rightarrow> bool" where
  "passes_through E p = (\<forall>v path. plain_data v \<longrightarrow> fst (validate E p v path) = v)"

definition stable :: "env \<Rightarrow> pred \<Rightarrow> bool" where
  "stable E p =
     (\<forall>v path. plain_data v \<and> snd (validate E p v path) = []
        \<longrightarrow> plain_data (fst (validate E p v path))
            \<and> validate E p (fst (validate E p v path)) path = (fst (validate E p v path), []))"

section \<open>Verified properties\<close>

subsection \<open>The resolver\<close>

lemma safeInvoke_faults: "faults E f args \<Longrightarrow> safeInvoke E f d args = d"
  by (auto simp: faults_def safeInvoke_def split: sum.splits)

lemma safeInvoke_absent [simp]: "safeInvoke E VUndefined d args = VUndefined"
  by (simp add: safeInvoke_def)

lemma resolve_absent_or_faults:
  assumes "v = VUndefined \<or> faults E v args"
  shows "toBuffer E v args = []" and "toStatusCode E v args = 200"
    and "toHeaders E v args = []" and "toDelay E v args = 0"
    and "toDestroySocket E v args = False"
  using assms by (auto simp: safeInvoke_faults)

lemma toHeaders_entries:
  assumes "safeInvoke E v VUndefined args = VObj kvs" and "isPlainObject' (VObj kvs)"
  shows "toHeaders E v args = map (\<lambda>kv. (fst kv, toBuffer E (snd kv) args)) kvs"
  using assms by (simp add: Let_def del: isPlainObject'.simps)

text \<open>
  C6, as the code has it. The resolver calls a callable through \<open>safeInvoke\<close> only,
  which answers any fault of the call with the default it was given, so the fault
  itself goes nowhere: \<open>toHTTPRes\<close> has a result whatever the callables do (\<open>E\<close> is
  arbitrary). For an absent descriptor, for a descriptor that is itself a callable
  that raises, and for a descriptor (literal, or returned by the descriptor callable)
  each of whose six fields is absent or a callable that raises, the result is exactly:
  empty body, status 200, no headers, both delays 0, \<open>destroySocket\<close> false. A header
  map is resolved entry by entry: every name is kept, with the bytes its value
  resolves to, and these are the empty bytes for a value that is a callable that
  raises, so such a header map does not resolve to the empty map. When the body
  resolves to a string the body written is its UTF-8 encoding, and when it resolves to
  a buffer it is that buffer.
\<close>

theorem toHTTPRes_defaults_on_fault:
  "toHTTPRes E VUndefined req reqBody = http_defaults
   \<and> (faults E f args \<longrightarrow> safeInvoke E f d args = d)
   \<and> (faults E res [req, reqBody] \<longrightarrow> toHTTPRes E res req reqBody = http_defaults)
   \<and> ((\<forall>k \<in> set http_fields.
          get_prop (safeInvoke E res VUndefined [req, reqBody]) k = VUndefined
          \<or> faults E (get_prop (safeInvoke E res VUndefined [req, reqBody]) k) [req, reqBody])
        \<longrightarrow> toHTTPRes E res req reqBody = http_defaults)
   \<and> (safeInvoke E (get_prop (safeInvoke E res VUndefined [req, reqBody]) ''headers'') VUndefined
          [req, reqBody] = VObj kvs \<and> isPlainObject' (VObj kvs)
        \<longrightarrow> headers (toHTTPRes E res req reqBody)
            = map (\<lambda>kv. (fst kv, toBuffer E (snd kv) [req, reqBody])) kvs)
   \<and> (faults E h [req, reqBody] \<longrightarrow> toBuffer E h [req, reqBody] = [])
   \<and> (safeInvoke E (get_prop (safeInvoke E res VUndefined [req, reqBody]) ''body'') VUndefined
          [req, reqBody] = VStr s
        \<longrightarrow> body (toHTTPRes E res req reqBody) = utf8_encode E s)
   \<and> (safeInvoke E (get_prop (safeInvoke E res VUndefined [req, reqBody]) ''body'') VUndefined
          [req, reqBody] = VBuf b
        \<longrightarrow> body (toHTTPRes E res req reqBody) = b)"
proof -
  let ?args = "[req, reqBody]"
  let ?d = "safeInvoke E res VUndefined ?args"
  have fields: "toHTTPRes E res req reqBody = http_defaults"
    if "\<forall>k \<in> set http_fields. get_prop ?d k = VUndefined \<or> faults E (get_prop ?d k) ?args"
  proof -
    have "get_prop ?d k = VUndefined \<or> faults E (get_prop ?d k) ?args"
      if "k \<in> set http_fields" for k
      using that \<open>\<forall>k \<in> set http_fields. _\<close> by blast
    then have each:
      "toBuffer E (get_prop ?d ''body'') ?args = []"
      "toStatusCode E (get_prop ?d ''statusCode'') ?args = 200"
      "toHeaders E (get_prop ?d ''headers'') ?args = []"
      "toDelay E (get_prop ?d ''headerDelay'') ?args = 0"
      "toDelay E (get_prop ?d ''bodyDelay'') ?args = 0"
      "toDestroySocket E (get_prop ?d ''destroySocket'') ?args = False"
      by (simp_all only: resolve_absent_or_faults http_fields_def list.set insert_iff simp_thms)
    show ?thesis
      unfolding toHTTPRes_def http_defaults_def Let_def using each by simp
  qed
  have absent: "toHTTPRes E VUndefined req reqBody = http_defaults"
    by (simp add: toHTTPRes_def http_defaults_def)
  have caught: "safeInvoke E f d args = d" if "faults E f args"
    using that by (rule safeInvoke_faults)
  have raised: "toHTTPRes E res req reqBody = http_defaults" if "faults E res ?args"
    using fields that by (simp add: safeInvoke_faults)
  have hdrs: "headers (toHTTPRes E res req reqBody)
                = map (\<lambda>kv. (fst kv, toBuffer E (snd kv) ?args)) kvs"
    if "safeInvoke E (get_prop ?d ''headers'') VUndefined ?args = VObj kvs \<and> isPlainObject' (VObj kvs)"
  proof -
    from that have "toHeaders E (get_prop ?d ''headers'') ?args
                      = map (\<lambda>kv. (fst kv, toBuffer E (snd kv) ?args)) kvs"
      by (intro toHeaders_entries) simp_all
    then show ?thesis by (simp add: toHTTPRes_def Let_def)
  qed
  have empty: "toBuffer E h ?args = []" if "faults E h ?args"
    using that by (simp add: safeInvoke_faults)
  have str: "body (toHTTPRes E res req reqBody) = utf8_encode E s"
    if "safeInvoke E (get_prop ?d ''body'') VUndefined ?args = VStr s"
    using that by (simp add: toHTTPRes_def Let_def)
  have buf: "body (toHTTPRes E res req reqBody) = b"
    if "safeInvoke E (get_prop ?d ''body'') VUndefined ?args = VBuf b"
    using that by (simp add: toHTTPRes_def Let_def)
  from absent caught raised fields hdrs empty str buf show ?thesis by blast
qed

theorem toHTTPRes_defaults_on_fault_witness:
  "faults demo_env (VFun ''res'' 0) [VNull, VBuf []]
   \<and> safeInvoke demo_env (VFun ''res'' 0) (VBool False) [VNull] = VBool False
   \<and> toHTTPRes demo_env (VFun ''res'' 0) VNull (VBuf []) = http_defaults
   \<and> toHTTPRes demo_env (VObj [(''body'', VFun ''f'' 0), (''statusCode'', VFun ''g'' 0)])
        VNull (VBuf []) = http_defaults
   \<and> headers (toHTTPRes demo_env
                 (VObj [(''headers'', VObj [(''x-a'', VFun ''f'' 0), (''x-b'', VStr ''yes'')])])
                 VNull (VBuf []))
       = [(''x-a'', []), (''x-b'', utf8_encode demo_env ''yes'')]
   \<and> toBuffer demo_env (VFun ''f'' 0) [VNull, VBuf []] = []
   \<and> body (toHTTPRes demo_env (VObj [(''body'', VFun ''f'' 1)]) VNull (VBuf []))
       = utf8_encode demo_env ''yes''
   \<and> body (toHTTPRes demo_env (VObj [(''body'', VBuf [1, 2])]) VNull (VBuf [])) = [1, 2]"
proof -
  let ?d = "VObj [(''body'', VFun ''f'' 0), (''statusCode'', VFun ''g'' 0)]"
  let ?hs = "[(''x-a'', VFun ''f'' 0), (''x-b'', VStr ''yes'')]"
  let ?dh = "VObj [(''headers'', VObj ?hs)]"
  have h1: "faults demo_env (VFun ''res'' 0) [VNull, VBuf []]"
    by code_simp
  have h0: "faults demo_env (VFun ''res'' 0) [VNull]"
    by code_simp
  have h2: "\<forall>k \<in> set http_fields.
         get_prop (safeInvoke demo_env ?d VUndefined [VNull, VBuf []]) k = VUndefined
         \<or> faults demo_env (get_prop (safeInvoke demo_env ?d VUndefined [VNull, VBuf []]) k)
              [VNull, VBuf []]"
    by code_simp
  have h3: "safeInvoke demo_env
              (get_prop (safeInvoke demo_env (VObj [(''body'', VFun ''f'' 1)]) VUndefined
                           [VNull, VBuf []]) ''body'')
              VUndefined [VNull, VBuf []] = VStr ''yes''"
    by code_simp
  have h4: "safeInvoke demo_env
              (get_prop (safeInvoke demo_env (VObj [(''body'', VBuf [1, 2])]) VUndefined
                           [VNull, VBuf []]) ''body'')
              VUndefined [VNull, VBuf []] = VBuf [1, 2]"
    by code_simp
  have h5: "safeInvoke demo_env
              (get_prop (safeInvoke demo_env ?dh VUndefined [VNull, VBuf []]) ''headers'')
              VUndefined [VNull, VBuf []] = VObj ?hs \<and> isPlainObject' (VObj ?hs)"
    by code_simp
  have h6: "faults demo_env (VFun ''f'' 0) [VNull, VBuf []]"
    by code_simp
  have m: "map (\<lambda>kv. (fst kv, toBuffer demo_env (snd kv) [VNull, VBuf []])) ?hs
             = [(''x-a'', []), (''x-b'', utf8_encode demo_env ''yes'')]"
    by code_simp
  note t = toHTTPRes_defaults_on_fault
  from t [where E = demo_env and f = "VFun ''res'' 0" and d = "VBool False" and args = "[VNull]"] h0
  have c0: "safeInvoke demo_env (VFun ''res'' 0) (VBool False) [VNull] = VBool False" by blast
  from t [where E = demo_env and req = VNull and reqBody = "VBuf []" and res = "VFun ''res'' 0"] h1
  have c1: "toHTTPRes demo_env (VFun ''res'' 0) VNull (VBuf []) = http_defaults" by blast
  from t [where E = demo_env and req = VNull and reqBody = "VBuf []" and res = ?d] h2
  have c2: "toHTTPRes demo_env ?d VNull (VBuf []) = http_defaults" by blast
  from t [where E = demo_env and req = VNull and reqBody = "VBuf []"
            and res = "VObj [(''body'', VFun ''f'' 1)]" and s = "''yes''"] h3
  have c3: "body (toHTTPRes demo_env (VObj [(''body'', VFun ''f'' 1)]) VNull (VBuf []))
              = utf8_encode demo_env ''yes''" by blast
  from t [where E = demo_env and req = VNull and reqBody = "VBuf []"
            and res = "VObj [(''body'', VBuf [1, 2])]" and b = "[1, 2]"] h4
  have c4: "body (toHTTPRes demo_env (VObj [(''body'', VBuf [1, 2])]) VNull (VBuf [])) = [1, 2]"
    by blast
  from t [where E = demo_env and req = VNull and reqBody = "VBuf []" and res = ?dh and kvs = ?hs] h5
  have "headers (toHTTPRes demo_env ?dh VNull (VBuf []))
          = map (\<lambda>kv. (fst kv, toBuffer demo_env (snd kv) [VNull, VBuf []])) ?hs" by blast
  with m have c5: "headers (toHTTPRes demo_env ?dh VNull (VBuf []))
          = [(''x-a'', []), (''x-b'', utf8_encode demo_env ''yes'')]" by simp
  from t [where E = demo_env and req = VNull and reqBody = "VBuf []" and h = "VFun ''f'' 0"] h6
  have c6: "toBuffer demo_env (VFun ''f'' 0) [VNull, VBuf []] = []" by blast
  from h1 c0 c1 c2 c3 c4 c5 c6 show ?thesis by blast
qed

text \<open>
  The claim as stated fails on a descriptor whose only callable raises, when that
  callable is the value of a header: \<open>{headers: {'x-a': f}}\<close> with \<open>f\<close> raising resolves
  to the header \<open>x-a\<close> with an empty value, not to the empty header map of the defaults.
\<close>

theorem toHTTPRes_faulting_header_counterexample:
  "faults demo_env (VFun ''f'' 0) [VNull, VBuf []]
   \<and> headers (toHTTPRes demo_env (VObj [(''headers'', VObj [(''x-a'', VFun ''f'' 0)])])
                VNull (VBuf []))
       = [(''x-a'', [])]
   \<and> headers http_defaults = []
   \<and> toHTTPRes demo_env (VObj [(''headers'', VObj [(''x-a'', VFun ''f'' 0)])]) VNull (VBuf [])
       \<noteq> http_defaults"
proof -
  have a: "faults demo_env (VFun ''f'' 0) [VNull, VBuf []]"
    by code_simp
  have b: "headers (toHTTPRes demo_env (VObj [(''headers'', VObj [(''x-a'', VFun ''f'' 0)])])
                      VNull (VBuf []))
             = [(''x-a'', [])]"
    by code_simp
  have c: "headers http_defaults = []"
    by (simp add: http_defaults_def)
  from b c have "toHTTPRes demo_env (VObj [(''headers'', VObj [(''x-a'', VFun ''f'' 0)])])
                   VNull (VBuf []) \<noteq> http_defaults"
    by auto
  with a b c show ?thesis by blast
qed

subsection \<open>Late validation of what a callable returns\<close>

lemma error_not_Nil [simp]: "error E path message v \<noteq> []"
  by (simp add: error_def)

lemma statusCode_schema_wraps:
  "isFunction' f \<Longrightarrow>
   validate E statusCode_schema f path =
     (VLate (Branch [And [IsInteger, IsValidStatusCode], IsUndefined] [Always, Always]
               ''if defined must be valid HTTP status code'') path f, [])"
  by (cases f) (simp_all add: statusCode_schema_def branchWithFunction_def isUndefined'_def)

lemma funcOptBufferable_wraps:
  "isFunction' f \<Longrightarrow> validate E funcOptBufferable f path = (VLate optBufferable path f, [])"
  by (cases f) (simp_all add: funcOptBufferable_def optBufferable_def isUndefined'_def)

lemma delay_wraps:
  "isFunction' f \<Longrightarrow>
   validate E delay f path =
     (VLate (Branch [isPositiveInt, IsUndefined] [Always, Always]
               ''if defined must be positive integer'') path f, [])"
  by (cases f)
     (simp_all add: delay_def isPositiveInt_def branchWithFunction_def isUndefined'_def)

lemma destroySocket_schema_wraps:
  "isFunction' f \<Longrightarrow>
   validate E destroySocket_schema f path =
     (VLate (Branch [IsBoolean, IsUndefined] [Always, Always] ''if defined must be boolean'')
        path f, [])"
  by (cases f) (simp_all add: destroySocket_schema_def branchWithFunction_def isUndefined'_def)

lemma late_call_rejects:
  assumes "call E f args = Inr v" and "snd (validate E p v (funcPath path)) \<noteq> []"
  shows "\<exists>msg. call E (VLate p path f) args = Inl (ValidationError msg)"
  using assms by (simp add: conform_def)

lemma late_safeInvoke_default:
  assumes "call E f args = Inr v" and "snd (validate E p v (funcPath path)) \<noteq> []"
  shows "safeInvoke E (VLate p path f) d args = d"
  using assms by (simp add: safeInvoke_def conform_def)

text \<open>
  C10. Let a field of a response descriptor be a callable \<open>f\<close> that, called at response
  time, returns \<open>v\<close>. The validator accepts \<open>f\<close> for the field and conforms it to the
  wrapper around \<open>f\<close> and the field's value predicate. If \<open>v\<close> fails that predicate
  (under the path ending in \<open>()\<close>), the call of the wrapper raises a ValidationError,
  and the resolver of the field, which calls the wrapper inside \<open>safeInvoke\<close>, returns
  the field's default: 200 for \<open>statusCode\<close>, the empty buffer for \<open>body\<close>, 0 for a
  delay, false for \<open>destroySocket\<close>. The resolvers return plain values, so the fault
  reaches neither the handler nor the peer.
\<close>

theorem late_validation_failure_gives_default:
  assumes "isFunction' f" and "call E f args = Inr v"
  shows
    "(snd (validate E (Branch [And [IsInteger, IsValidStatusCode], IsUndefined] [Always, Always]
                         ''if defined must be valid HTTP status code'') v (funcPath path)) \<noteq> []
      \<longrightarrow> snd (validate E statusCode_schema f path) = []
          \<and> (\<exists>msg. call E (fst (validate E statusCode_schema f path)) args
                      = Inl (ValidationError msg))
          \<and> toStatusCode E (fst (validate E statusCode_schema f path)) args = 200)
     \<and> (snd (validate E optBufferable v (funcPath path)) \<noteq> []
      \<longrightarrow> snd (validate E funcOptBufferable f path) = []
          \<and> (\<exists>msg. call E (fst (validate E funcOptBufferable f path)) args
                      = Inl (ValidationError msg))
          \<and> toBuffer E (fst (validate E funcOptBufferable f path)) args = [])
     \<and> (snd (validate E (Branch [isPositiveInt, IsUndefined] [Always, Always]
                           ''if defined must be positive integer'') v (funcPath path)) \<noteq> []
      \<longrightarrow> snd (validate E delay f path) = []
          \<and> (\<exists>msg. call E (fst (validate E delay f path)) args = Inl (ValidationError msg))
          \<and> toDelay E (fst (validate E delay f path)) args = 0)
     \<and> (snd (validate E (Branch [IsBoolean, IsUndefined] [Always, Always]
                           ''if defined must be boolean'') v (funcPath path)) \<noteq> []
      \<longrightarrow> snd (validate E destroySocket_schema f path) = []
          \<and> (\<exists>msg. call E (fst (validate E destroySocket_schema f path)) args
                      = Inl (ValidationError msg))
          \<and> toDestroySocket E (fst (validate E destroySocket_schema f path)) args = False)"
proof (intro conjI impI)
  note f = \<open>isFunction' f\<close> and c = \<open>call E f args = Inr v\<close>
  show "snd (validate E statusCode_schema f path) = []"
    and "snd (validate E funcOptBufferable f path) = []"
    and "snd (validate E delay f path) = []"
    and "snd (validate E destroySocket_schema f path) = []"
    using f by (simp_all add: statusCode_schema_wraps funcOptBufferable_wraps delay_wraps
                  destroySocket_schema_wraps)
next
  let ?p = "Branch [And [IsInteger, IsValidStatusCode], IsUndefined] [Always, Always]
              ''if defined must be valid HTTP status code''"
  assume bad: "snd (validate E ?p v (funcPath path)) \<noteq> []"
  have w: "fst (validate E statusCode_schema f path) = VLate ?p path f"
    using assms(1) by (simp add: statusCode_schema_wraps)
  show "\<exists>msg. call E (fst (validate E statusCode_schema f path)) args = Inl (ValidationError msg)"
    unfolding w using late_call_rejects [OF assms(2) bad] .
  show "toStatusCode E (fst (validate E statusCode_schema f path)) args = 200"
    unfolding w using late_safeInvoke_default [OF assms(2) bad] by simp
next
  assume bad: "snd (validate E optBufferable v (funcPath path)) \<noteq> []"
  have w: "fst (validate E funcOptBufferable f path) = VLate optBufferable path f"
    using assms(1) by (simp add: funcOptBufferable_wraps)
  show "\<exists>msg. call E (fst (validate E funcOptBufferable f path)) args = Inl (ValidationError msg)"
    unfolding w using late_call_rejects [OF assms(2) bad] .
  show "toBuffer E (fst (validate E funcOptBufferable f path)) args = []"
    unfolding w using late_safeInvoke_default [OF assms(2) bad] by simp
next
  let ?p = "Branch [isPositiveInt, IsUndefined] [Always, Always]
              ''if defined must be positive integer''"
  assume bad: "snd (validate E ?p v (funcPath path)) \<noteq> []"
  have w: "fst (validate E delay f path) = VLate ?p path f"
    using assms(1) by (simp add: delay_wraps)
  show "\<exists>msg. call E (fst (validate E delay f path)) args = Inl (ValidationError msg)"
    unfolding w using late_call_rejects [OF assms(2) bad] .
  show "toDelay E (fst (validate E delay f path)) args = 0"
    unfolding w using late_safeInvoke_default [OF assms(2) bad] by simp
next
  let ?p = "Branch [IsBoolean, IsUndefined] [Always, Always] ''if defined must be boolean''"
  assume bad: "snd (validate E ?p v (funcPath path)) \<noteq> []"
  have w: "fst (validate E destroySocket_schema f path) = VLate ?p path f"
    using assms(1) by (simp add: destroySocket_schema_wraps)
  show "\<exists>msg. call E (fst (validate E destroySocket_schema f path)) args
          = Inl (ValidationError msg)"
    unfolding w using late_call_rejects [OF assms(2) bad] .
  show "toDestroySocket E (fst (validate E destroySocket_schema f path)) args = False"
    unfolding w using late_safeInvoke_default [OF assms(2) bad] by simp
qed

theorem late_validation_failure_gives_default_witness:
  "call demo_env (VFun ''f'' 6) [VNull, VBuf []] = Inr (VNum (- 5))
   \<and> toStatusCode demo_env
        (fst (validate demo_env statusCode_schema (VFun ''f'' 6) [''options'', ''res'', ''statusCode'']))
        [VNull, VBuf []] = 200
   \<and> toBuffer demo_env
        (fst (validate demo_env funcOptBufferable (VFun ''f'' 6) [''options'', ''res'', ''body'']))
        [VNull, VBuf []] = []
   \<and> toDelay demo_env
        (fst (validate demo_env delay (VFun ''f'' 6) [''options'', ''res'', ''bodyDelay'']))
        [VNull, VBuf []] = 0
   \<and> toDestroySocket demo_env
        (fst (validate demo_env destroySocket_schema (VFun ''f'' 6)
                [''options'', ''res'', ''destroySocket'']))
        [VNull, VBuf []] = False"
proof -
  have f: "isFunction' (VFun ''f'' 6)" by simp
  have c: "call demo_env (VFun ''f'' 6) [VNull, VBuf []] = Inr (VNum (- 5))"
    by code_simp
  have b1: "snd (validate demo_env
                   (Branch [And [IsInteger, IsValidStatusCode], IsUndefined] [Always, Always]
                      ''if defined must be valid HTTP status code'')
                   (VNum (- 5)) (funcPath [''options'', ''res'', ''statusCode''])) \<noteq> []"
    by code_simp
  have b2: "snd (validate demo_env optBufferable (VNum (- 5))
                   (funcPath [''options'', ''res'', ''body''])) \<noteq> []"
    by code_simp
  have b3: "snd (validate demo_env
                   (Branch [isPositiveInt, IsUndefined] [Always, Always]
                      ''if defined must be positive integer'')
                   (VNum (- 5)) (funcPath [''options'', ''res'', ''bodyDelay''])) \<noteq> []"
    by code_simp
  have b4: "snd (validate demo_env
                   (Branch [IsBoolean, IsUndefined] [Always, Always] ''if defined must be boolean'')
                   (VNum (- 5)) (funcPath [''options'', ''res'', ''destroySocket''])) \<noteq> []"
    by code_simp
  note t = late_validation_failure_gives_default [OF f c]
  from t [of "[''options'', ''res'', ''statusCode'']"] b1
  have c1: "toStatusCode demo_env
        (fst (validate demo_env statusCode_schema (VFun ''f'' 6) [''options'', ''res'', ''statusCode'']))
        [VNull, VBuf []] = 200" by blast
  from t [of "[''options'', ''res'', ''body'']"] b2
  have c2: "toBuffer demo_env
        (fst (validate demo_env funcOptBufferable (VFun ''f'' 6) [''options'', ''res'', ''body'']))
        [VNull, VBuf []] = []" by blast
  from t [of "[''options'', ''res'', ''bodyDelay'']"] b3
  have c3: "toDelay demo_env
        (fst (validate demo_env delay (VFun ''f'' 6) [''options'', ''res'', ''bodyDelay'']))
        [VNull, VBuf []] = 0" by blast
  from t [of "[''options'', ''res'', ''destroySocket'']"] b4
  have c4: "toDestroySocket demo_env
        (fst (validate demo_env destroySocket_schema (VFun ''f'' 6)
                [''options'', ''res'', ''destroySocket'']))
        [VNull, VBuf []] = False" by blast
  from c c1 c2 c3 c4 show ?thesis by blast
qed

subsection \<open>Reset\<close>

lemma reset_default:
  assumes "arg \<noteq> VNull" and "get_prop arg ''throwOnPending'' = VUndefined"
  shows "reset pending_of print ms arg =
           ([], if \<exists>m \<in> set ms. pending_of m
                then Some (PendingMockError
                             (''The following mocks are still pending: ''
                                @ join '', '' (map print (filter pending_of ms))))
                else None)"
  using assms by (auto simp: reset_def reset_message_def Let_def filter_empty_conv)

text \<open>
  C3. A call of \<open>reset\<close> whose argument leaves \<open>throwOnPending\<close> at its default (no
  argument, or an argument without that field). In both servers the array of mocks is
  empty afterwards, whether the call raises or not, so matched and pending mocks are
  discarded alike; the call raises exactly when a registered mock is pending, and what it
  raises is a PendingMockError whose message is the fixed prefix followed by the
  printable forms of the pending mocks, in registration order, joined by a comma and a
  space.
\<close>

theorem reset_raises_iff_pending_and_empties:
  assumes "arg \<noteq> VNull" and "get_prop arg ''throwOnPending'' = VUndefined"
  shows
    "fst (http_reset E ms arg) = []
     \<and> snd (http_reset E ms arg) =
         (if \<exists>m \<in> set ms. isPending m
          then Some (PendingMockError
                       (''The following mocks are still pending: ''
                          @ join '', '' (map (\<lambda>m. printHTTP E (decl m)) (filter isPending ms))))
          else None)
     \<and> s_mocks (fst (tcp_reset E st arg)) = []
     \<and> snd (tcp_reset E st arg) =
         (if \<exists>i \<in> set (s_mocks st). isPending (s_heap st ! i)
          then Raised (PendingMockError
                         (''The following mocks are still pending: ''
                            @ join '', ''
                                (map (\<lambda>i. printTCP E (decl (s_heap st ! i)))
                                   (filter (\<lambda>i. isPending (s_heap st ! i)) (s_mocks st)))))
          else Quiet)"
  by (simp add: http_reset_def tcp_reset_def reset_default [OF assms] Let_def)

theorem reset_raises_iff_pending_and_empties_witness:
  "http_reset demo_env
     [\<lparr>options = VObj [], decl = VObj [(''req'', VStr ''a'')], is_done = True\<rparr>,
      \<lparr>options = VObj [], decl = VObj [(''res'', VStr ''b'')], is_done = False\<rparr>]
     VUndefined
   = ([], Some (PendingMockError ''The following mocks are still pending: HTTP{res='b'}''))"
proof -
  have a: "VUndefined \<noteq> VNull" by simp
  have b: "get_prop VUndefined ''throwOnPending'' = VUndefined" by simp
  let ?ms = "[\<lparr>options = VObj [], decl = VObj [(''req'', VStr ''a'')], is_done = True\<rparr>,
              \<lparr>options = VObj [], decl = VObj [(''res'', VStr ''b'')], is_done = False\<rparr>]"
  have e: "(if \<exists>m \<in> set ?ms. isPending m
          then Some (PendingMockError
                       (''The following mocks are still pending: ''
                          @ join '', '' (map (\<lambda>m. printHTTP demo_env (decl m)) (filter isPending ?ms))))
          else None) = Some (PendingMockError ''The following mocks are still pending: HTTP{res='b'}'')"
    by code_simp
  from reset_raises_iff_pending_and_empties [OF a b, of demo_env ?ms] e
  show ?thesis by (simp add: prod_eq_iff)
qed

subsection \<open>HTTP dispatch\<close>

lemma http_isMatch_parsed:
  "parseReq E req = Inr p \<Longrightarrow>
   \<exists>v. http_isMatch E m req reqBody = Inr v \<and> truthy v = satisfied E m p reqBody"
  by (simp add: http_isMatch_def satisfied_def)

lemma http_find_parsed:
  assumes "parseReq E req = Inr p"
  shows "(\<exists>n. http_find E ms req reqBody k = Inr (Some n) \<and> k \<le> n \<and> n - k < length ms
              \<and> satisfied E (ms ! (n - k)) p reqBody
              \<and> (\<forall>j < n - k. \<not> satisfied E (ms ! j) p reqBody))
         \<or> (http_find E ms req reqBody k = Inr None \<and> (\<forall>m \<in> set ms. \<not> satisfied E m p reqBody))"
proof (induction ms arbitrary: k)
  case Nil
  then show ?case by simp
next
  case (Cons m ms)
  obtain v where v: "http_isMatch E m req reqBody = Inr v"
    and tv: "truthy v = satisfied E m p reqBody"
    using http_isMatch_parsed [OF assms] by blast
  show ?case
  proof (cases "satisfied E m p reqBody")
    case True
    then show ?thesis using v tv by simp
  next
    case False
    from Cons.IH [of "Suc k"] show ?thesis
    proof
      assume "\<exists>n. http_find E ms req reqBody (Suc k) = Inr (Some n) \<and> Suc k \<le> n
                \<and> n - Suc k < length ms \<and> satisfied E (ms ! (n - Suc k)) p reqBody
                \<and> (\<forall>j < n - Suc k. \<not> satisfied E (ms ! j) p reqBody)"
      then obtain n where n: "http_find E ms req reqBody (Suc k) = Inr (Some n)" "Suc k \<le> n"
        "n - Suc k < length ms" "satisfied E (ms ! (n - Suc k)) p reqBody"
        "\<forall>j < n - Suc k. \<not> satisfied E (ms ! j) p reqBody"
        by blast
      have eq: "n - k = Suc (n - Suc k)" using n(2) by simp
      have "\<forall>j < n - k. \<not> satisfied E ((m # ms) ! j) p reqBody"
        using n(5) False eq by (auto simp: nth_Cons split: nat.splits)
      then show ?thesis
        using n v tv False eq by auto
    next
      assume "http_find E ms req reqBody (Suc k) = Inr None
              \<and> (\<forall>m \<in> set ms. \<not> satisfied E m p reqBody)"
      then show ?thesis using v tv False by simp
    qed
  qed
qed

text \<open>
  For a request that parses (\<open>parseReq\<close> returns the parsed request \<open>p\<close>) and any list
  of registered mocks, the handler takes the mock at the first position \<open>i\<close>, in
  insertion order, that is pending and whose request predicate \<open>compare\<close> finds
  satisfied by the parsed request: no earlier mock is pending and satisfied, so a mock
  already matched is passed over whatever its predicate says. The list afterwards
  differs from the list before at position \<open>i\<close> only, where the mock is now matched, and
  the resolution of that mock's descriptor is served unless \<open>res.writeHead\<close> refuses
  it. When no mock is pending and satisfied the list is unchanged and the fallback is
  written. (The index that a regular expression with the flag \<open>g\<close> or \<open>y\<close> keeps is
  read by \<open>compare\<close> and not written back to the list.)
\<close>

lemma http_handler_parsed:
  assumes "parseReq E req = Inr p"
  shows
    "(\<exists>i < length ms.
         satisfied E (ms ! i) p reqBody
         \<and> (\<forall>j < i. \<not> satisfied E (ms ! j) p reqBody)
         \<and> http_handler E ms req reqBody =
             (ms[i := (ms ! i)\<lparr>is_done := True\<rparr>],
              let r = toHTTPRes E (get_prop (options (ms ! i)) ''res'') (incoming req) (VBuf reqBody)
              in case writeHead_fault E (statusCode r) (headers r) of
                   Some e \<Rightarrow> Caught e
                 | None \<Rightarrow> Served r))
     \<or> ((\<forall>m \<in> set ms. \<not> satisfied E m p reqBody)
         \<and> http_handler E ms req reqBody =
             (ms, Fallback 404 [(''Content-Type'', ''text/plain'')]
                    (''No matching mock was found for '' @ printReq req)))"
  using http_find_parsed [OF assms, of ms reqBody 0]
  by (auto simp: http_handler_def Let_def)

text \<open>
  C1. The handler's search calls \<open>isMatch\<close> on each mock in insertion order, and
  \<open>isMatch\<close> parses the request anew for every pending mock. \<open>headers\<close> raises a
  TypeError on a header whose name an object literal inherits (\<open>toString\<close>,
  \<open>constructor\<close>, \<open>__proto__\<close>, ...), and the fault ends the search in the handler's
  \<open>catch\<close>. Here the list holds one mock, declared by \<open>mock({})\<close>: it is pending, and its
  request predicate is absent, which every parsed request satisfies. The request
  \<open>GET /\<close> carries the header \<open>toString: x\<close>. The handler selects no mock: the list is
  as before, the mock is still pending, and the outcome is the fault. The same request
  without that header takes the mock.
\<close>

theorem http_no_selection_on_inherited_header_name:
  "http_Mock demo_env (VObj []) = Inr \<lparr>options = VObj [], decl = VObj [], is_done = False\<rparr>
   \<and> (\<forall>p reqBody. satisfied demo_env \<lparr>options = VObj [], decl = VObj [], is_done = False\<rparr> p reqBody)
   \<and> http_handler demo_env
       [\<lparr>options = VObj [], decl = VObj [], is_done = False\<rparr>]
       \<lparr>req_method = ''GET'', req_url = ''/'', httpVersion = ''1.1'',
        rawHeaders = [''Host'', ''localhost'', ''toString'', ''x''],
        req_host = Some ''localhost'', incoming = VOther 0\<rparr>
       []
     = ([\<lparr>options = VObj [], decl = VObj [], is_done = False\<rparr>],
        Caught (TypeError ''res[currentKey] is not iterable''))
   \<and> http_handler demo_env
       [\<lparr>options = VObj [], decl = VObj [], is_done = False\<rparr>]
       \<lparr>req_method = ''GET'', req_url = ''/'', httpVersion = ''1.1'',
        rawHeaders = [''Host'', ''localhost''],
        req_host = Some ''localhost'', incoming = VOther 0\<rparr>
       []
     = ([\<lparr>options = VObj [], decl = VObj [], is_done = True\<rparr>], Served http_defaults)"
proof -
  have a: "http_Mock demo_env (VObj [])
             = Inr \<lparr>options = VObj [], decl = VObj [], is_done = False\<rparr>"
    by code_simp
  have b: "satisfied demo_env \<lparr>options = VObj [], decl = VObj [], is_done = False\<rparr> p reqBody"
    for p reqBody
    by (simp add: satisfied_def isPending_def inherited_def object_prototype_keys_def)
  have c: "http_handler demo_env
       [\<lparr>options = VObj [], decl = VObj [], is_done = False\<rparr>]
       \<lparr>req_method = ''GET'', req_url = ''/'', httpVersion = ''1.1'',
        rawHeaders = [''Host'', ''localhost'', ''toString'', ''x''],
        req_host = Some ''localhost'', incoming = VOther 0\<rparr>
       []
     = ([\<lparr>options = VObj [], decl = VObj [], is_done = False\<rparr>],
        Caught (TypeError ''res[currentKey] is not iterable''))"
    by code_simp
  have d: "http_handler demo_env
       [\<lparr>options = VObj [], decl = VObj [], is_done = False\<rparr>]
       \<lparr>req_method = ''GET'', req_url = ''/'', httpVersion = ''1.1'',
        rawHeaders = [''Host'', ''localhost''],
        req_host = Some ''localhost'', incoming = VOther 0\<rparr>
       []
     = ([\<lparr>options = VObj [], decl = VObj [], is_done = True\<rparr>], Served http_defaults)"
    by code_simp
  from a b c d show ?thesis by blast
qed

lemma http_fallback_when_search_ends:
  "http_find E ms req reqBody 0 = Inr None \<Longrightarrow>
   http_handler E ms req reqBody =
     (ms, Fallback 404 [(''Content-Type'', ''text/plain'')]
            (''No matching mock was found for ['' @ req_method req @ '' '' @ req_url req
               @ '' HTTP/'' @ httpVersion req @ '']''))"
  by (simp add: http_handler_def printReq_def)

text \<open>
  C5. The fallback is written only when the search over the mocks comes to its end. The
  search parses the request once for every pending mock, and \<open>headers\<close> raises a
  TypeError on a header whose name an object literal inherits (\<open>constructor\<close>,
  \<open>toString\<close>, \<open>__proto__\<close>, ...): the name reads as the inherited member, which is
  neither \<open>undefined\<close> nor a string, and the third branch spreads it. The fault ends
  the search in the handler's \<open>catch\<close>, which prints it; nothing is written to the
  response. Here one mock is pending, its predicate (the method \<open>PUT\<close>) is not
  satisfied by the request \<open>GET /\<close> with the header \<open>constructor: x\<close>, and the outcome
  is the fault, not the 404.
\<close>

theorem http_no_fallback_on_inherited_header_name:
  "http_handler demo_env
     [\<lparr>options = VObj [(''req'', VObj [(''method'', VStr ''PUT'')])], decl = VNull, is_done = False\<rparr>]
     \<lparr>req_method = ''GET'', req_url = ''/'', httpVersion = ''1.1'',
      rawHeaders = [''Host'', ''localhost'', ''constructor'', ''x''],
      req_host = Some ''localhost'', incoming = VOther 0\<rparr>
     []
   = ([\<lparr>options = VObj [(''req'', VObj [(''method'', VStr ''PUT'')])], decl = VNull, is_done = False\<rparr>],
      Caught (TypeError ''res[currentKey] is not iterable''))"
  by code_simp

subsection \<open>The comparator\<close>

text \<open>The tests of \<open>_compare\<close> in the order of the source.\<close>

lemma compare_source:
  "compare E desired actual =
     (if desired = VUndefined then VBool True
      else if isFunction' desired then safeInvoke E desired (VBool False) [actual]
      else if isPlainObject' desired \<and> isPlainObject' actual
        then VBool (list_all (\<lambda>kv. truthy (compare E (snd kv) (get_prop actual (fst kv))))
                      (entries desired))
      else if isArray' desired \<and> isArray' actual
        then VBool (list_all (\<lambda>i. truthy (compare E (elements desired ! i) (idx (elements actual) i)))
                      [0..<length (elements desired)])
      else if isBuffer' desired \<and> isBuffer' actual then VBool (bytes_of desired = bytes_of actual)
      else if isBuffer' desired \<and> isString' actual
        then VBool (utf8_decode E (bytes_of desired) = string_of actual)
      else if isString' desired \<and> isBuffer' actual
        then VBool (string_of desired = utf8_decode E (bytes_of actual))
      else if isString' desired \<and> isString' actual
        then VBool (string_of desired = string_of actual)
      else if isRegExp' desired \<and> isString' actual
        then VBool (test E desired (string_of actual))
      else if isRegExp' desired \<and> isBuffer' actual
        then VBool (test E desired (utf8_decode E (bytes_of actual)))
      else VBool False)"
  by (cases desired; cases actual)
     (auto simp: entries_def elements_def bytes_of_def string_of_def test_def)









subsection \<open>What \<open>obj\<close> conforms to\<close>

lemma update_fresh: "k \<notin> fst ` set acc \<Longrightarrow> AList.update k v acc = acc @ [(k, v)]"
  by (induction acc) auto

lemma foldl_set_prop_fresh:
  assumes "distinct (map fst xs)" and "fst ` set xs \<inter> fst ` set acc = {}"
    and "''__proto__'' \<notin> fst ` set xs"
  shows "foldl (\<lambda>acc kv. set_prop acc (fst kv) (snd kv)) acc xs = acc @ xs"
  using assms
proof (induction xs arbitrary: acc)
  case Nil
  then show ?case by simp
next
  case (Cons x xs)
  have "set_prop acc (fst x) (snd x) = acc @ [x]"
    using Cons.prems by (auto simp: set_prop_def update_fresh)
  moreover have "foldl (\<lambda>acc kv. set_prop acc (fst kv) (snd kv)) (acc @ [x]) xs = (acc @ [x]) @ xs"
    using Cons.prems by (intro Cons.IH) auto
  ultimately show ?case by simp
qed

lemma foldl_conformed_filter:
  "foldl (\<lambda>acc kr. if fst (snd kr) \<noteq> VUndefined then set_prop acc (fst kr) (fst (snd kr)) else acc)
     acc rs
   = foldl (\<lambda>acc kv. set_prop acc (fst kv) (snd kv)) acc
       (filter (\<lambda>kv. snd kv \<noteq> VUndefined) (map (\<lambda>kr. (fst kr, fst (snd kr))) rs))"
  by (induction rs arbitrary: acc) auto

lemma validate_Obj:
  assumes "isPlainObject' v" and "distinct (map fst ps)" and "''__proto__'' \<notin> fst ` set ps"
  shows "validate E (Obj ps) v path =
           (VObj (filter (\<lambda>kv. snd kv \<noteq> VUndefined) (obj_fields E ps v path)),
            concat (map (\<lambda>kp. snd (validate E (snd kp) (get_prop v (fst kp)) (path @ [fst kp]))) ps))"
proof -
  let ?rs = "map (\<lambda>kp. (fst kp, validate E (snd kp) (get_prop v (fst kp)) (path @ [fst kp]))) ps"
  let ?xs = "filter (\<lambda>kv. snd kv \<noteq> VUndefined) (map (\<lambda>kr. (fst kr, fst (snd kr))) ?rs)"
  have "distinct (map fst (map (\<lambda>kr. (fst kr, fst (snd kr))) ?rs))"
    using assms(2) by (simp add: comp_def)
  then have "distinct (map fst ?xs)"
    by (rule distinct_map_filter)
  moreover have "''__proto__'' \<notin> fst ` set ?xs"
    using assms(3) by force
  ultimately have "foldl (\<lambda>acc kv. set_prop acc (fst kv) (snd kv)) [] ?xs = ?xs"
    using foldl_set_prop_fresh [of ?xs "[]"] by simp
  moreover have "?xs = filter (\<lambda>kv. snd kv \<noteq> VUndefined) (obj_fields E ps v path)"
    by (simp add: obj_fields_def comp_def)
  ultimately show ?thesis
    using assms(1) by (simp add: Let_def foldl_conformed_filter comp_def del: isPlainObject'.simps)
qed

lemma get_prop_conformed:
  assumes "(k, p) \<in> set ps" and "distinct (map fst ps)" and "inherited k = VUndefined"
  shows "get_prop (VObj (filter (\<lambda>kv. snd kv \<noteq> VUndefined) (obj_fields E ps v path))) k
           = fst (validate E p (get_prop v k) (path @ [k]))"
proof -
  let ?c = "fst (validate E p (get_prop v k) (path @ [k]))"
  have d: "distinct (map fst (obj_fields E ps v path))"
    using assms(2) by (simp add: obj_fields_def comp_def)
  have m: "(k, ?c) \<in> set (obj_fields E ps v path)"
    using assms(1) by (force simp: obj_fields_def)
  have d': "distinct (map fst (filter (\<lambda>kv. snd kv \<noteq> VUndefined) (obj_fields E ps v path)))"
    using d by (simp add: distinct_map_filter)
  show ?thesis
  proof (cases "?c = VUndefined")
    case True
    have "map_of (filter (\<lambda>kv. snd kv \<noteq> VUndefined) (obj_fields E ps v path)) k = None"
    proof (rule ccontr)
      assume "map_of (filter (\<lambda>kv. snd kv \<noteq> VUndefined) (obj_fields E ps v path)) k \<noteq> None"
      then obtain c where "(k, c) \<in> set (filter (\<lambda>kv. snd kv \<noteq> VUndefined) (obj_fields E ps v path))"
        by (auto dest: map_of_SomeD)
      then have "(k, c) \<in> set (obj_fields E ps v path)" and "c \<noteq> VUndefined" by auto
      with m d have "c = ?c" by (meson eq_key_imp_eq_value)
      with True \<open>c \<noteq> VUndefined\<close> show False by simp
    qed
    with True assms(3) show ?thesis by simp
  next
    case False
    with m have "(k, ?c) \<in> set (filter (\<lambda>kv. snd kv \<noteq> VUndefined) (obj_fields E ps v path))"
      by simp
    with d' have "map_of (filter (\<lambda>kv. snd kv \<noteq> VUndefined) (obj_fields E ps v path)) k = Some ?c"
      by (rule map_of_is_SomeI)
    then show ?thesis by simp
  qed
qed

lemma plain_conformed:
  assumes "''constructor'' \<notin> fst ` set ps"
  shows "isPlainObject' (VObj (filter (\<lambda>kv. snd kv \<noteq> VUndefined) (obj_fields E ps v path)))"
proof -
  have "''constructor'' \<notin> fst ` set (filter (\<lambda>kv. snd kv \<noteq> VUndefined) (obj_fields E ps v path))"
    using assms by (force simp: obj_fields_def)
  then have "map_of (filter (\<lambda>kv. snd kv \<noteq> VUndefined) (obj_fields E ps v path)) ''constructor'' = None"
    by (simp add: map_of_eq_None_iff)
  then show ?thesis by (simp add: inherited_def)
qed

lemma validate_And3:
  "validate E (And [p1, p2, p3]) v path =
     (let r1 = validate E p1 v path
      in if snd r1 \<noteq> [] then (v, snd r1)
         else let r2 = validate E p2 (fst r1) path
              in if snd r2 \<noteq> [] then (v, snd r2)
                 else let r3 = validate E p3 (fst r2) path
                      in if snd r3 \<noteq> [] then (v, snd r3) else (fst r3, []))"
  by (simp add: Let_def)

lemma validate_Exclusive_fst [simp]: "fst (validate E (Exclusive A B) v path) = v"
  by (simp add: Let_def)

lemma validate_Exclusive_both:
  assumes "isPlainObject' v" and "a \<in> set A" and "get_prop v a \<noteq> VUndefined"
    and "b \<in> set B" and "get_prop v b \<noteq> VUndefined"
  shows "snd (validate E (Exclusive A B) v path) \<noteq> []"
proof -
  have "filter (\<lambda>e. \<not> isUndefined' (get_prop v e)) A \<noteq> []"
    using assms(2,3) by (auto simp: filter_empty_conv isUndefined'_def)
  moreover have "filter (\<lambda>e. \<not> isUndefined' (get_prop v e)) B \<noteq> []"
    using assms(4,5) by (auto simp: filter_empty_conv isUndefined'_def)
  ultimately show ?thesis
    using assms(1) by (simp add: Let_def del: isPlainObject'.simps)
qed

lemma optBufferable_fst [simp]: "fst (validate E optBufferable v path) = v"
  by (cases v) (simp_all add: optBufferable_def isUndefined'_def)

lemma pinned_fst [simp]: "fst (validate E (Or [IsUndefined, IsPlainObject]) v path) = v"
  by (simp add: isUndefined'_def)

lemma optComparable_defined:
  "v \<noteq> VUndefined \<Longrightarrow> fst (validate E optComparable v path) \<noteq> VUndefined"
  by (cases v) (simp_all add: optComparable_def isUndefined'_def)

lemma tcp_res_defined:
  assumes "v \<noteq> VUndefined"
  shows "fst (validate E tcp_res v path) \<noteq> VUndefined"
proof (cases "isPlainObject' v")
  case True
  then have "validate E tcp_res v path = validate E tcp_resObj v path"
    by (simp add: tcp_res_def branchWithFunction_def del: isPlainObject'.simps validate.simps(12))
  moreover have "\<exists>kvs. fst (validate E tcp_resObj v path) = VObj kvs"
    using True by (simp add: tcp_resObj_def Let_def del: isPlainObject'.simps)
  ultimately show ?thesis by auto
next
  case False
  then show ?thesis
    using assms
    by (cases v)
       (simp_all add: tcp_res_def branchWithFunction_def optBufferable_def isUndefined'_def
          del: isPlainObject'.simps)
qed

lemma mockSchemaObj_rejects:
  assumes plain: "isPlainObject' v"
    and both: "get_prop v ''init'' \<noteq> VUndefined"
      "get_prop v ''req'' \<noteq> VUndefined \<or> get_prop v ''res'' \<noteq> VUndefined
       \<or> get_prop v ''_pinnedTo'' \<noteq> VUndefined"
  shows "snd (validate E mockSchemaObj v path) \<noteq> []"
proof -
  define ps where "ps = [(''_pinnedTo'', Or [IsUndefined, IsPlainObject]), (''init'', optBufferable),
                         (''req'', optComparable), (''res'', tcp_res)]"
  define c where "c = VObj (filter (\<lambda>kv. snd kv \<noteq> VUndefined) (obj_fields E ps v path))"
  have d: "distinct (map fst ps)" and np: "''__proto__'' \<notin> fst ` set ps"
    and nc: "''constructor'' \<notin> fst ` set ps"
    by (simp_all add: ps_def)
  from validate_Obj [OF plain d np]
  have r1: "fst (validate E (Obj ps) v path) = c"
    by (simp add: c_def)
  have pc: "isPlainObject' c"
    unfolding c_def by (rule plain_conformed [OF nc])
  have g: "get_prop c k = fst (validate E p (get_prop v k) (path @ [k]))"
    if "(k, p) \<in> set ps" and "inherited k = VUndefined" for k p
    unfolding c_def using that(1) d that(2) by (rule get_prop_conformed)
  have init: "get_prop c ''init'' \<noteq> VUndefined"
    using g [of "''init''" optBufferable] both(1)
    by (simp add: ps_def inherited_def object_prototype_keys_def)
  have pin: "get_prop c ''_pinnedTo'' \<noteq> VUndefined" if "get_prop v ''_pinnedTo'' \<noteq> VUndefined"
    using g [of "''_pinnedTo''" "Or [IsUndefined, IsPlainObject]"] that
    by (simp add: ps_def inherited_def object_prototype_keys_def del: validate.simps)
  have req: "get_prop c ''req'' \<noteq> VUndefined" if "get_prop v ''req'' \<noteq> VUndefined"
    using g [of "''req''" optComparable] optComparable_defined [OF that]
    by (simp add: ps_def inherited_def object_prototype_keys_def)
  have res: "get_prop c ''res'' \<noteq> VUndefined" if "get_prop v ''res'' \<noteq> VUndefined"
    using g [of "''res''" tcp_res] tcp_res_defined [OF that]
    by (simp add: ps_def inherited_def object_prototype_keys_def)
  have e2: "snd (validate E (Exclusive [''init''] [''req'', ''res'']) c path) \<noteq> []"
    if "get_prop v ''req'' \<noteq> VUndefined \<or> get_prop v ''res'' \<noteq> VUndefined"
    using that
  proof
    assume "get_prop v ''req'' \<noteq> VUndefined"
    from validate_Exclusive_both [OF pc _ init _ req [OF this]] show ?thesis by simp
  next
    assume "get_prop v ''res'' \<noteq> VUndefined"
    from validate_Exclusive_both [OF pc _ init _ res [OF this]] show ?thesis by simp
  qed
  have e3: "snd (validate E connectionPinned c path) \<noteq> []"
    if "get_prop v ''_pinnedTo'' \<noteq> VUndefined"
  proof -
    from validate_Exclusive_both [OF pc _ init _ pin [OF that], of "[''init'']" "[''_pinnedTo'']" E path]
    have "snd (validate E (Exclusive [''init''] [''_pinnedTo'']) c path) \<noteq> []" by simp
    then show ?thesis
      by (simp add: connectionPinned_def Let_def del: validate.simps(20))
  qed
  have unfold: "validate E mockSchemaObj v path =
     (let r1 = validate E (Obj ps) v path
      in if snd r1 \<noteq> [] then (v, snd r1)
         else let r2 = validate E (Exclusive [''init''] [''req'', ''res'']) (fst r1) path
              in if snd r2 \<noteq> [] then (v, snd r2)
                 else let r3 = validate E connectionPinned (fst r2) path
                      in if snd r3 \<noteq> [] then (v, snd r3) else (fst r3, []))"
    unfolding mockSchemaObj_def ps_def by (rule validate_And3)
  show ?thesis
  proof (cases "get_prop v ''req'' \<noteq> VUndefined \<or> get_prop v ''res'' \<noteq> VUndefined")
    case True
    from e2 [OF True] show ?thesis
      unfolding unfold by (simp add: Let_def r1 del: validate.simps)
  next
    case False
    with both(2) have "get_prop v ''_pinnedTo'' \<noteq> VUndefined" by blast
    from e3 [OF this] show ?thesis
      unfolding unfold by (simp add: Let_def r1 del: validate.simps)
  qed
qed

lemma tcp_mockSchema_rejects:
  assumes "get_prop v ''init'' \<noteq> VUndefined"
    and "get_prop v ''req'' \<noteq> VUndefined \<or> get_prop v ''res'' \<noteq> VUndefined
         \<or> get_prop v ''_pinnedTo'' \<noteq> VUndefined"
  shows "\<exists>msg. conformed_options E tcp_mockSchema v = Inl (ValidationError msg)"
proof -
  have "snd (validate E tcp_mockSchema v path) \<noteq> []" for path
  proof (cases "isPlainObject' v")
    case True
    with mockSchemaObj_rejects [OF True assms] show ?thesis
      by (simp add: tcp_mockSchema_def del: isPlainObject'.simps)
  next
    case False
    moreover from assms(1) have "v \<noteq> VUndefined" by auto
    ultimately show ?thesis
      by (simp add: tcp_mockSchema_def isUndefined'_def del: isPlainObject'.simps)
  qed
  then show ?thesis
    by (simp add: conformed_options_def conform_def)
qed

subsection \<open>Declarations of TCP mocks\<close>

lemma tcp_add_rejects:
  assumes "get_prop v ''init'' \<noteq> VUndefined"
    and "get_prop v ''req'' \<noteq> VUndefined \<or> get_prop v ''res'' \<noteq> VUndefined
         \<or> get_prop v ''_pinnedTo'' \<noteq> VUndefined"
  shows "\<exists>msg. tcp_add E st v ref = (st, Raised (ValidationError msg))"
  using tcp_mockSchema_rejects [OF assms, where E = E] by (auto simp: tcp_add_def)

lemma tcp_child_rejects:
  assumes "h < length (s_heap st)" and "get_prop v ''init'' \<noteq> VUndefined"
  shows "\<exists>msg. tcp_child E st h v = (st, Raised (ValidationError msg))"
proof -
  from assms(2) obtain kvs where v: "v = VObj kvs" by (cases v) simp_all
  define rec where "rec = VObj [(''connection'', s_pins st ! pinnedTo (s_heap st ! h))]"
  define v' where "v' = VObj (AList.update ''_pinnedTo'' rec (spread v))"
  have "get_prop v' ''init'' = get_prop v ''init''"
    by (simp add: v'_def v update_conv')
  with assms(2) have i: "get_prop v' ''init'' \<noteq> VUndefined" by simp
  have p: "get_prop v' ''_pinnedTo'' \<noteq> VUndefined"
    by (simp add: v'_def v update_conv' rec_def)
  from tcp_add_rejects [OF i, where E = E and st = st and ref = "Some (pinnedTo (s_heap st ! h))"] p
  show ?thesis
    using assms(1) by (simp add: tcp_child_def Let_def v'_def rec_def)
qed

text \<open>
  C8, as the code has it. The validator of a TCP mock never lets \<open>init\<close> stand together
  with \<open>req\<close> or \<open>res\<close>: a declaration that defines \<open>init\<close> and one of the two is
  rejected with a ValidationError and the server is unchanged. A declaration made
  through the \<open>mock\<close> function of an existing mock handle (a pinned child) that defines
  \<open>init\<close> is rejected with a ValidationError. A declaration that defines none of the
  three is accepted: the validator asks for at most one of the two sides, not for
  exactly one.
\<close>

theorem tcp_mock_init_excludes_req_res:
  "(get_prop v ''init'' \<noteq> VUndefined
      \<and> (get_prop v ''req'' \<noteq> VUndefined \<or> get_prop v ''res'' \<noteq> VUndefined)
     \<longrightarrow> (\<exists>msg. tcp_step E st (Add v) = (st, Raised (ValidationError msg))))
   \<and> (h < length (s_heap st) \<and> get_prop v ''init'' \<noteq> VUndefined
     \<longrightarrow> (\<exists>msg. tcp_step E st (Child h v) = (st, Raised (ValidationError msg))))
   \<and> snd (tcp_step E st (Add (VObj []))) = Registered (length (s_heap st))
   \<and> snd (tcp_step E st (Add VUndefined)) = Registered (length (s_heap st))"
proof (intro conjI impI)
  assume "get_prop v ''init'' \<noteq> VUndefined
          \<and> (get_prop v ''req'' \<noteq> VUndefined \<or> get_prop v ''res'' \<noteq> VUndefined)"
  then show "\<exists>msg. tcp_step E st (Add v) = (st, Raised (ValidationError msg))"
    using tcp_add_rejects [where v = v and E = E and st = st and ref = None] by auto
next
  assume "h < length (s_heap st) \<and> get_prop v ''init'' \<noteq> VUndefined"
  then show "\<exists>msg. tcp_step E st (Child h v) = (st, Raised (ValidationError msg))"
    using tcp_child_rejects [where h = h and st = st and v = v and E = E] by auto
next
  have "validate E tcp_mockSchema (VObj []) [''options''] = (VObj [], [])"
    by (simp add: tcp_mockSchema_def mockSchemaObj_def connectionPinned_def optBufferable_def
          optComparable_def tcp_res_def branchWithFunction_def isUndefined'_def inherited_def
          object_prototype_keys_def Let_def)
  then show "snd (tcp_step E st (Add (VObj []))) = Registered (length (s_heap st))"
    by (simp add: tcp_add_def conformed_options_def conform_def Let_def)
next
  have "validate E tcp_mockSchema VUndefined [''options''] = (VUndefined, [])"
    by (simp add: tcp_mockSchema_def isUndefined'_def)
  then show "snd (tcp_step E st (Add VUndefined)) = Registered (length (s_heap st))"
    by (simp add: tcp_add_def conformed_options_def conform_def Let_def)
qed

theorem tcp_mock_init_excludes_req_res_witness:
  "(\<exists>msg. tcp_step demo_env tcp_init (Add (VObj [(''init'', VStr ''a''), (''req'', VStr ''b'')]))
            = (tcp_init, Raised (ValidationError msg)))
   \<and> (\<exists>msg. tcp_step demo_env (fst (tcp_step demo_env tcp_init (Add (VObj []))))
              (Child 0 (VObj [(''init'', VStr ''b'')]))
            = (fst (tcp_step demo_env tcp_init (Add (VObj []))), Raised (ValidationError msg)))"
proof -
  let ?v = "VObj [(''init'', VStr ''a''), (''req'', VStr ''b'')]"
  let ?st = "fst (tcp_step demo_env tcp_init (Add (VObj [])))"
  let ?w = "VObj [(''init'', VStr ''b'')]"
  have h1: "get_prop ?v ''init'' \<noteq> VUndefined
            \<and> (get_prop ?v ''req'' \<noteq> VUndefined \<or> get_prop ?v ''res'' \<noteq> VUndefined)"
    by code_simp
  have h2: "0 < length (s_heap ?st) \<and> get_prop ?w ''init'' \<noteq> VUndefined"
    by code_simp
  from tcp_mock_init_excludes_req_res [where v = ?v and E = demo_env and st = tcp_init] h1
  have c1: "\<exists>msg. tcp_step demo_env tcp_init (Add ?v) = (tcp_init, Raised (ValidationError msg))"
    by blast
  from tcp_mock_init_excludes_req_res [where v = ?w and h = 0 and st = ?st and E = demo_env] h2
  have c2: "\<exists>msg. tcp_step demo_env ?st (Child 0 ?w) = (?st, Raised (ValidationError msg))"
    by blast
  from c1 c2 show ?thesis by blast
qed

text \<open>
  The declaration \<open>{}\<close> populates neither \<open>init\<close> nor \<open>req\<close> nor \<open>res\<close>, and it is
  registered.
\<close>

theorem tcp_mock_exactly_one_counterexample:
  "get_prop (VObj []) ''init'' = VUndefined
   \<and> get_prop (VObj []) ''req'' = VUndefined
   \<and> get_prop (VObj []) ''res'' = VUndefined
   \<and> conformed_options demo_env tcp_mockSchema (VObj []) = Inr (VObj [])
   \<and> snd (tcp_step demo_env tcp_init (Add (VObj []))) = Registered 0"
  by code_simp

subsection \<open>The receive buffer of a TCP connection\<close>

lemma since_fresh_none: "\<forall>y \<in> set xs. \<not> fresh c y \<Longrightarrow> since_fresh c xs = xs"
proof -
  assume "\<forall>y \<in> set xs. \<not> fresh c y"
  then have "takeWhile (\<lambda>x. \<not> fresh c x) (rev xs) = rev xs"
    by (simp add: takeWhile_eq_all_conv)
  then show ?thesis unfolding since_fresh_def by (simp only: rev_rev_ident)
qed

lemma since_fresh_Cons:
  "since_fresh c (x # xs) =
     (if \<exists>y \<in> set xs. fresh c y then since_fresh c xs
      else if fresh c x then xs else x # xs)"
proof (cases "\<exists>y \<in> set xs. fresh c y")
  case True
  then have "takeWhile (\<lambda>x. \<not> fresh c x) (rev xs @ [x]) = takeWhile (\<lambda>x. \<not> fresh c x) (rev xs)"
    by (intro takeWhile_append1 [where x = "SOME y. y \<in> set xs \<and> fresh c y"])
       (auto intro: someI2_ex)
  with True show ?thesis by (simp add: since_fresh_def)
next
  case False
  then have all: "\<forall>y \<in> set (rev xs). \<not> fresh c y" by simp
  have "takeWhile (\<lambda>x. \<not> fresh c x) (rev xs @ [x])
          = rev xs @ takeWhile (\<lambda>x. \<not> fresh c x) [x]"
    using all by (intro takeWhile_append2) simp
  with False show ?thesis by (simp add: since_fresh_def)
qed

lemma tcp_match_recv [simp]: "s_recv (tcp_match st i conn) = s_recv st"
  by (simp add: tcp_match_def Let_def)

lemma tcp_add_recv [simp]: "s_recv (fst (tcp_add E st v ref)) = s_recv st"
  by (simp add: tcp_add_def Let_def split: sum.splits)

lemma tcp_step_recv:
  "s_recv (fst (tcp_step E st ev)) c =
     (if fresh c (ev, snd (tcp_step E st ev)) then Some []
      else map_option (\<lambda>old. old @ chunk_of c (ev, snd (tcp_step E st ev))) (s_recv st c))"
proof (cases ev)
  case (Add v)
  then show ?thesis by (simp add: fresh_def chunk_of_def option.map_ident)
next
  case (Child h v)
  then show ?thesis by (simp add: fresh_def chunk_of_def tcp_child_def Let_def option.map_ident)
next
  case (Connect c')
  then show ?thesis
    by (auto simp: fresh_def chunk_of_def tcp_connect_def Let_def option.map_ident
             split: option.splits)
next
  case (Data c' b)
  then show ?thesis
    by (auto simp: fresh_def chunk_of_def tcp_data_def Let_def answered_def option.map_ident
             split: option.splits)
next
  case (Reset arg)
  then show ?thesis by (simp add: fresh_def chunk_of_def tcp_reset_def Let_def option.map_ident)
qed

lemma tcp_run_recv:
  "s_recv (snd (tcp_run E st evs)) c =
     (if \<exists>x \<in> set (fst (tcp_run E st evs)). fresh c x
      then Some (concat (map (chunk_of c) (since_fresh c (fst (tcp_run E st evs)))))
      else map_option (\<lambda>old. old @ concat (map (chunk_of c) (fst (tcp_run E st evs)))) (s_recv st c))"
proof (induction evs arbitrary: st)
  case Nil
  then show ?case by (simp add: option.map_ident)
next
  case (Cons ev evs)
  let ?so = "tcp_step E st ev"
  let ?rest = "tcp_run E (fst ?so) evs"
  have run: "tcp_run E st (ev # evs) = ((ev, snd ?so) # fst ?rest, snd ?rest)"
    by (simp add: Let_def)
  show ?case
  proof (cases "\<exists>x \<in> set (fst ?rest). fresh c x")
    case True
    with Cons.IH [of "fst ?so"] show ?thesis
      unfolding run by (simp add: since_fresh_Cons)
  next
    case False
    with Cons.IH [of "fst ?so"]
    have rest: "s_recv (snd ?rest) c
                  = map_option (\<lambda>old. old @ concat (map (chunk_of c) (fst ?rest)))
                      (s_recv (fst ?so) c)"
      by simp
    show ?thesis
    proof (cases "fresh c (ev, snd ?so)")
      case True
      with False rest tcp_step_recv [of E st ev c] show ?thesis
        unfolding run by (simp add: since_fresh_Cons)
    next
      case nf: False
      with False rest tcp_step_recv [of E st ev c] show ?thesis
        unfolding run by (cases "s_recv st c") (simp_all add: since_fresh_Cons)
    qed
  qed
qed

lemma tcp_step_not_live:
  assumes "s_recv st c = None" and "ev \<noteq> Connect c"
  shows "\<not> fresh c (ev, snd (tcp_step E st ev)) \<and> s_recv (fst (tcp_step E st ev)) c = None"
proof (cases ev)
  case (Connect c')
  with assms show ?thesis
    by (auto simp: fresh_def tcp_connect_def Let_def split: option.splits)
next
  case (Data c' b)
  with assms show ?thesis
    by (auto simp: fresh_def tcp_data_def Let_def answered_def split: option.splits)
qed (use assms in \<open>simp_all add: fresh_def tcp_child_def tcp_reset_def Let_def\<close>)

lemma tcp_run_not_live:
  assumes "s_recv st c = None" and "Connect c \<notin> set evs"
  shows "\<forall>x \<in> set (fst (tcp_run E st evs)). \<not> fresh c x"
  using assms
proof (induction evs arbitrary: st)
  case Nil
  then show ?case by simp
next
  case (Cons ev evs)
  from Cons.prems have "ev \<noteq> Connect c" and rest: "Connect c \<notin> set evs" by auto
  from tcp_step_not_live [OF Cons.prems(1) this(1), of E]
  have a: "\<not> fresh c (ev, snd (tcp_step E st ev))"
    and b: "s_recv (fst (tcp_step E st ev)) c = None"
    by simp_all
  from Cons.IH [OF b rest] a show ?case by (simp add: Let_def)
qed

lemma tcp_run_events: "map fst (fst (tcp_run E st evs)) = evs"
  by (induction evs arbitrary: st) (simp_all add: Let_def)

lemma tcp_run_live:
  assumes "Connect c \<in> set evs"
  shows "\<exists>x \<in> set (fst (tcp_run E st evs)). fresh c x"
proof -
  from assms tcp_run_events [of E st evs]
  obtain x where "x \<in> set (fst (tcp_run E st evs))" and "fst x = Connect c"
    by (metis (no_types, lifting) imageE list.set_map)
  then show ?thesis by (intro bexI [of _ x]) (simp_all add: fresh_def)
qed

text \<open>
  C7. In every run of the server from its start, after all events are processed the
  receive buffer of a connection that was opened is the concatenation, in order, of the
  chunks that arrived on it after the last chunk on it that a mock answered, or after
  its opening when no chunk was answered since (a connection that was never opened has
  no buffer). Every prefix of a run is a run, so this holds after each chunk. Step by
  step: a chunk is appended to the buffer, and when a mock matches the whole buffer the
  response is resolved from the buffer with the chunk appended and the buffer is empty
  when the handler reaches its first wait, before any write.
\<close>

theorem recv_is_chunks_since_last_match:
  "s_recv (snd (tcp_run E tcp_init evs)) c =
     (if Connect c \<in> set evs
      then Some (concat (map (chunk_of c) (since_fresh c (fst (tcp_run E tcp_init evs)))))
      else None)
   \<and> (s_recv st c = Some old \<longrightarrow>
        (case snd (tcp_step E st (Data c b)) of
           Answered i res \<Rightarrow>
             s_recv (fst (tcp_step E st (Data c b))) c = Some []
             \<and> res = toTCPRes E (get_prop (options (s_heap st ! i)) ''res'') (VBuf (old @ b))
         | out \<Rightarrow> s_recv (fst (tcp_step E st (Data c b))) c = Some (old @ b)))"
proof (intro conjI impI)
  show "s_recv (snd (tcp_run E tcp_init evs)) c =
     (if Connect c \<in> set evs
      then Some (concat (map (chunk_of c) (since_fresh c (fst (tcp_run E tcp_init evs)))))
      else None)"
  proof (cases "Connect c \<in> set evs")
    case True
    from tcp_run_live [OF True, of E tcp_init] tcp_run_recv [of E tcp_init evs c] True
    show ?thesis by simp
  next
    case False
    have "s_recv tcp_init c = None" by (simp add: tcp_init_def)
    from tcp_run_not_live [OF this False, of E] tcp_run_recv [of E tcp_init evs c] False this
    show ?thesis by simp
  qed
next
  assume "s_recv st c = Some old"
  then show "case snd (tcp_step E st (Data c b)) of
           Answered i res \<Rightarrow>
             s_recv (fst (tcp_step E st (Data c b))) c = Some []
             \<and> res = toTCPRes E (get_prop (options (s_heap st ! i)) ''res'') (VBuf (old @ b))
         | out \<Rightarrow> s_recv (fst (tcp_step E st (Data c b))) c = Some (old @ b)"
    by (simp add: tcp_data_def Let_def split: option.splits)
qed

theorem recv_is_chunks_since_last_match_witness:
  "s_recv (snd (tcp_run demo_env tcp_init
                  [Add (VObj [(''req'', VStr ''ab''), (''res'', VStr ''ok'')]), Connect 7,
                   Data 7 [0x61], Data 7 [0x62], Data 7 [0x63]])) 7 = Some [0x63]
   \<and> s_recv (snd (tcp_run demo_env tcp_init
                  [Add (VObj [(''req'', VStr ''ab''), (''res'', VStr ''ok'')]), Connect 7,
                   Data 7 [0x61]])) 7 = Some [0x61]
   \<and> s_recv (fst (tcp_step demo_env
                    (snd (tcp_run demo_env tcp_init
                            [Add (VObj [(''req'', VStr ''ab''), (''res'', VStr ''ok'')]), Connect 7,
                             Data 7 [0x61]]))
                    (Data 7 [0x62]))) 7 = Some []"
proof -
  define evs where "evs = [Add (VObj [(''req'', VStr ''ab''), (''res'', VStr ''ok'')]), Connect 7,
                           Data 7 [0x61], Data 7 [0x62], Data 7 [0x63]]"
  define st where "st = snd (tcp_run demo_env tcp_init
                          [Add (VObj [(''req'', VStr ''ab''), (''res'', VStr ''ok'')]), Connect 7,
                           Data 7 [0x61]])"
  have rhs: "(if Connect 7 \<in> set evs
              then Some (concat (map (chunk_of 7) (since_fresh 7 (fst (tcp_run demo_env tcp_init evs)))))
              else None) = Some [0x63]"
    unfolding evs_def by code_simp
  have h: "s_recv st 7 = Some [0x61]"
    unfolding st_def by code_simp
  have out: "snd (tcp_step demo_env st (Data 7 [0x62]))
               = Answered 0 \<lparr>tcp_body = [0x6F, 0x6B], tcp_bodyDelay = 0, tcp_destroySocket = False\<rparr>"
    unfolding st_def by code_simp
  note t = recv_is_chunks_since_last_match
  from t [where E = demo_env and evs = evs and c = 7] rhs
  have c1: "s_recv (snd (tcp_run demo_env tcp_init evs)) 7 = Some [0x63]"
    by simp
  from t [where E = demo_env and st = st and c = 7 and old = "[0x61]" and b = "[0x62]"] h out
  have c2: "s_recv (fst (tcp_step demo_env st (Data 7 [0x62]))) 7 = Some []"
    by simp
  from c1 h c2 show ?thesis unfolding evs_def st_def by blast
qed

subsection \<open>Pinning\<close>

lemma tcp_inv_init: "tcp_inv tcp_init"
  by (simp add: tcp_inv_def tcp_init_def)

lemma tcp_match_inv:
  assumes inv: "tcp_inv st" and i: "i < length (s_heap st)"
    and ok: "isHeadMock (s_heap st ! i) \<or> s_pins st ! pinnedTo (s_heap st ! i) = VOther conn"
  shows "tcp_inv (tcp_match st i conn)"
proof -
  let ?m = "s_heap st ! i"
  let ?st' = "tcp_match st i conn"
  have heap: "s_heap ?st' = (s_heap st)[i := ?m\<lparr>is_done := True\<rparr>]"
    and pins: "s_pins ?st' = (if isHeadMock ?m then (s_pins st)[pinnedTo ?m := VOther conn]
                              else s_pins st)"
    and mocks: "s_mocks ?st' = s_mocks st"
    by (simp_all add: tcp_match_def Let_def)
  have len: "length (s_heap ?st') = length (s_heap st)" "length (s_pins ?st') = length (s_pins st)"
    by (simp_all add: heap pins)
  have same: "isHeadMock (s_heap ?st' ! j) = isHeadMock (s_heap st ! j)"
    "pinnedTo (s_heap ?st' ! j) = pinnedTo (s_heap st ! j)"
    "isInit (s_heap ?st' ! j) = isInit (s_heap st ! j)"
    "is_done (s_heap ?st' ! j) = (j = i \<or> is_done (s_heap st ! j))"
    if "j < length (s_heap st)" for j
    using that i by (auto simp: heap nth_list_update isInit_def)
  from inv have
    I1: "\<And>j. j < length (s_heap st) \<Longrightarrow> pinnedTo (s_heap st ! j) < length (s_pins st)"
    and I2: "\<And>j k. j < length (s_heap st) \<Longrightarrow> k < length (s_heap st) \<Longrightarrow>
              isHeadMock (s_heap st ! j) \<Longrightarrow> isHeadMock (s_heap st ! k) \<Longrightarrow>
              pinnedTo (s_heap st ! j) = pinnedTo (s_heap st ! k) \<Longrightarrow> j = k"
    and I3: "\<And>j. j < length (s_heap st) \<Longrightarrow> isHeadMock (s_heap st ! j) \<Longrightarrow>
              s_pins st ! pinnedTo (s_heap st ! j) \<noteq> VNull \<Longrightarrow> is_done (s_heap st ! j)"
    and I4: "\<And>j. j < length (s_heap st) \<Longrightarrow> \<not> isHeadMock (s_heap st ! j) \<Longrightarrow>
              is_done (s_heap st ! j) \<Longrightarrow> \<exists>c. s_pins st ! pinnedTo (s_heap st ! j) = VOther c"
    and I5: "\<And>j. j \<in> set (s_mocks st) \<Longrightarrow> j < length (s_heap st)"
    and I6: "\<And>j. j < length (s_heap st) \<Longrightarrow> isInit (s_heap st ! j) \<Longrightarrow> isHeadMock (s_heap st ! j)"
    unfolding tcp_inv_def by blast+
  have hit: "s_pins ?st' ! b = VOther conn"
    if "b < length (s_pins st)" "isHeadMock ?m" "b = pinnedTo ?m" for b
    using that by (simp add: pins)
  have miss: "s_pins ?st' ! b = s_pins st ! b"
    if "\<not> (isHeadMock ?m \<and> b = pinnedTo ?m)" for b
    using that by (auto simp: pins)
  have J3: "is_done (s_heap ?st' ! j)"
    if "j < length (s_heap st)" "isHeadMock (s_heap st ! j)"
      "s_pins ?st' ! pinnedTo (s_heap st ! j) \<noteq> VNull" for j
  proof (cases "j = i")
    case True
    then show ?thesis using that(1) by (simp add: same)
  next
    case False
    have "\<not> (isHeadMock ?m \<and> pinnedTo (s_heap st ! j) = pinnedTo ?m)"
      using I2 [OF that(1) i that(2)] False by blast
    then have "s_pins ?st' ! pinnedTo (s_heap st ! j) = s_pins st ! pinnedTo (s_heap st ! j)"
      by (rule miss)
    with that(3) have "s_pins st ! pinnedTo (s_heap st ! j) \<noteq> VNull" by simp
    from I3 [OF that(1,2) this] show ?thesis using that(1) by (simp add: same)
  qed
  have J4: "\<exists>c. s_pins ?st' ! pinnedTo (s_heap st ! j) = VOther c"
    if "j < length (s_heap st)" "\<not> isHeadMock (s_heap st ! j)" "is_done (s_heap ?st' ! j)" for j
  proof (cases "isHeadMock ?m \<and> pinnedTo (s_heap st ! j) = pinnedTo ?m")
    case True
    then show ?thesis using hit [OF I1 [OF that(1)]] by blast
  next
    case False
    then have eq: "s_pins ?st' ! pinnedTo (s_heap st ! j) = s_pins st ! pinnedTo (s_heap st ! j)"
      by (rule miss)
    show ?thesis
    proof (cases "j = i")
      case True
      with that(2) ok eq show ?thesis by auto
    next
      case False
      with that(3) same(4) [OF that(1)] have "is_done (s_heap st ! j)" by simp
      from I4 [OF that(1,2) this] eq show ?thesis by simp
    qed
  qed
  show ?thesis
    unfolding tcp_inv_def len mocks
    using I1 I2 I5 I6 J3 J4 by (auto simp: same)
qed

lemma connectionPinned_fst [simp]: "fst (validate E connectionPinned v path) = v"
  by (simp add: connectionPinned_def Let_def del: validate.simps(20))

lemma mockSchemaObj_accepted:
  assumes plain: "isPlainObject' v" and ok: "snd (validate E mockSchemaObj v path) = []"
  shows "isPlainObject' (fst (validate E mockSchemaObj v path))
         \<and> snd (validate E connectionPinned (fst (validate E mockSchemaObj v path)) path) = []"
proof -
  define ps where "ps = [(''_pinnedTo'', Or [IsUndefined, IsPlainObject]), (''init'', optBufferable),
                         (''req'', optComparable), (''res'', tcp_res)]"
  define c where "c = VObj (filter (\<lambda>kv. snd kv \<noteq> VUndefined) (obj_fields E ps v path))"
  have d: "distinct (map fst ps)" and np: "''__proto__'' \<notin> fst ` set ps"
    and nc: "''constructor'' \<notin> fst ` set ps"
    by (simp_all add: ps_def)
  from validate_Obj [OF plain d np]
  have r1: "fst (validate E (Obj ps) v path) = c"
    by (simp add: c_def)
  have pc: "isPlainObject' c"
    unfolding c_def by (rule plain_conformed [OF nc])
  have unfold: "validate E mockSchemaObj v path =
     (let r1 = validate E (Obj ps) v path
      in if snd r1 \<noteq> [] then (v, snd r1)
         else let r2 = validate E (Exclusive [''init''] [''req'', ''res'']) (fst r1) path
              in if snd r2 \<noteq> [] then (v, snd r2)
                 else let r3 = validate E connectionPinned (fst r2) path
                      in if snd r3 \<noteq> [] then (v, snd r3) else (fst r3, []))"
    unfolding mockSchemaObj_def ps_def by (rule validate_And3)
  have e1: "snd (validate E (Obj ps) v path) = []"
    using ok unfolding unfold by (auto simp: Let_def split: if_splits simp del: validate.simps)
  have e2: "snd (validate E (Exclusive [''init''] [''req'', ''res'']) c path) = []"
    using ok e1 unfolding unfold
    by (auto simp: Let_def r1 split: if_splits simp del: validate.simps)
  have e3: "snd (validate E connectionPinned c path) = []"
    using ok e1 e2 unfolding unfold
    by (auto simp: Let_def r1 split: if_splits simp del: validate.simps)
  have "fst (validate E mockSchemaObj v path) = c"
    unfolding unfold using e1 e2 e3 by (simp add: Let_def r1 del: validate.simps)
  with pc e3 show ?thesis by simp
qed

lemma tcp_options_init_is_head:
  assumes "conformed_options E tcp_mockSchema v = Inr opts"
    and "get_prop opts ''init'' \<noteq> VUndefined"
  shows "get_prop opts ''_pinnedTo'' = VUndefined"
proof (cases "isPlainObject' v")
  case True
  let ?c = "fst (validate E mockSchemaObj v [''options''])"
  have eq: "validate E tcp_mockSchema v [''options''] = validate E mockSchemaObj v [''options'']"
    using True by (simp add: tcp_mockSchema_def del: isPlainObject'.simps)
  from assms(1) have ok: "snd (validate E mockSchemaObj v [''options'']) = []"
    by (auto simp: conformed_options_def conform_def eq split: if_splits)
  from mockSchemaObj_accepted [OF True ok]
  have pc: "isPlainObject' ?c" and e3: "snd (validate E connectionPinned ?c [''options'']) = []"
    by simp_all
  from pc have "?c \<noteq> VUndefined" "?c \<noteq> VNull" by auto
  with assms(1) ok have opts: "opts = ?c"
    by (auto simp: conformed_options_def conform_def eq split: if_splits)
  show ?thesis
  proof (rule ccontr)
    assume "get_prop opts ''_pinnedTo'' \<noteq> VUndefined"
    with assms(2) opts pc
    have "snd (validate E (Exclusive [''init''] [''_pinnedTo'']) ?c [''options'']) \<noteq> []"
      by (intro validate_Exclusive_both [where a = "''init''" and b = "''_pinnedTo''"]) simp_all
    then have "snd (validate E connectionPinned ?c [''options'']) \<noteq> []"
      by (simp add: connectionPinned_def Let_def del: validate.simps(20))
    with e3 show False by simp
  qed
next
  case False
  show ?thesis
  proof (cases "v = VUndefined")
    case True
    with assms show ?thesis
      by (auto simp: conformed_options_def conform_def tcp_mockSchema_def isUndefined'_def
            inherited_def object_prototype_keys_def split: if_splits)
  next
    case nu: False
    with False have "snd (validate E tcp_mockSchema v [''options'']) \<noteq> []"
      by (simp add: tcp_mockSchema_def isUndefined'_def del: isPlainObject'.simps)
    with assms(1) show ?thesis
      by (simp add: conformed_options_def conform_def)
  qed
qed

lemma tcp_add_inv:
  assumes inv: "tcp_inv st"
    and ref: "ref = None \<or> (\<exists>a. ref = Some a \<and> a < length (s_pins st))"
  shows "tcp_inv (fst (tcp_add E st v ref))"
proof (cases "conformed_options E tcp_mockSchema v")
  case (Inl e)
  with inv show ?thesis by (simp add: tcp_add_def)
next
  case (Inr opts)
  define pin where "pin = get_prop opts ''_pinnedTo''"
  define isfresh where "isfresh = (pin = VUndefined \<or> ref = None)"
  define a where "a = (if isfresh then length (s_pins st) else the ref)"
  define m where "m = \<lparr> options = opts, decl = v, is_done = False,
                         isHeadMock = (pin = VUndefined), pinnedTo = a \<rparr>"
  define x where "x = (if pin = VUndefined then VNull else get_prop pin ''connection'')"
  let ?st' = "fst (tcp_add E st v ref)"
  let ?n = "length (s_heap st)"
  have heap: "s_heap ?st' = s_heap st @ [m]"
    and pins: "s_pins ?st' = (if isfresh then s_pins st @ [x] else s_pins st)"
    and mocks: "s_mocks ?st' = s_mocks st @ [?n]"
    using Inr by (simp_all add: tcp_add_def Let_def m_def a_def isfresh_def pin_def x_def)
  from inv have
    I1: "\<And>j. j < ?n \<Longrightarrow> pinnedTo (s_heap st ! j) < length (s_pins st)"
    and I2: "\<And>j k. j < ?n \<Longrightarrow> k < ?n \<Longrightarrow>
              isHeadMock (s_heap st ! j) \<Longrightarrow> isHeadMock (s_heap st ! k) \<Longrightarrow>
              pinnedTo (s_heap st ! j) = pinnedTo (s_heap st ! k) \<Longrightarrow> j = k"
    and I3: "\<And>j. j < ?n \<Longrightarrow> isHeadMock (s_heap st ! j) \<Longrightarrow>
              s_pins st ! pinnedTo (s_heap st ! j) \<noteq> VNull \<Longrightarrow> is_done (s_heap st ! j)"
    and I4: "\<And>j. j < ?n \<Longrightarrow> \<not> isHeadMock (s_heap st ! j) \<Longrightarrow>
              is_done (s_heap st ! j) \<Longrightarrow> \<exists>c. s_pins st ! pinnedTo (s_heap st ! j) = VOther c"
    and I5: "\<And>j. j \<in> set (s_mocks st) \<Longrightarrow> j < ?n"
    and I6: "\<And>j. j < ?n \<Longrightarrow> isInit (s_heap st ! j) \<Longrightarrow> isHeadMock (s_heap st ! j)"
    unfolding tcp_inv_def by blast+
  have old: "s_heap ?st' ! j = s_heap st ! j" if "j < ?n" for j
    using that by (simp add: heap nth_append)
  have new: "s_heap ?st' ! ?n = m"
    by (simp add: heap)
  have len: "length (s_heap ?st') = Suc ?n"
    by (simp add: heap)
  have cell: "s_pins ?st' ! b = s_pins st ! b" if "b < length (s_pins st)" for b
    using that by (simp add: pins nth_append)
  have plen: "length (s_pins st) \<le> length (s_pins ?st')"
    by (simp add: pins)
  have a_in: "a < length (s_pins ?st')"
    using ref by (auto simp: a_def pins isfresh_def)
  have head_a: "a = length (s_pins st)" if "isHeadMock m"
    using that by (simp add: m_def a_def isfresh_def)
  have head_x: "s_pins ?st' ! a = VNull" if "isHeadMock m"
    using that by (simp add: m_def a_def isfresh_def pins x_def)
  have init_m: "isHeadMock m" if "isInit m"
    using that tcp_options_init_is_head [OF Inr] by (auto simp: m_def isInit_def pin_def)
  have J1: "pinnedTo (s_heap ?st' ! j) < length (s_pins ?st')" if "j < Suc ?n" for j
  proof (cases "j = ?n")
    case True
    then show ?thesis using a_in by (simp add: new m_def)
  next
    case False
    with that have "j < ?n" by simp
    with I1 [OF this] plen show ?thesis by (simp add: old)
  qed
  have J2: "j = k" if "j < Suc ?n" "k < Suc ?n" "isHeadMock (s_heap ?st' ! j)"
    "isHeadMock (s_heap ?st' ! k)" "pinnedTo (s_heap ?st' ! j) = pinnedTo (s_heap ?st' ! k)" for j k
  proof (cases "j = ?n"; cases "k = ?n")
    assume "j = ?n" "k \<noteq> ?n"
    with that have k: "k < ?n" and "isHeadMock m" and "a = pinnedTo (s_heap st ! k)"
      by (simp_all add: new old m_def)
    with head_a I1 [OF k] show ?thesis by simp
  next
    assume "j \<noteq> ?n" "k = ?n"
    with that have j: "j < ?n" and "isHeadMock m" and "a = pinnedTo (s_heap st ! j)"
      by (simp_all add: new old m_def)
    with head_a I1 [OF j] show ?thesis by simp
  next
    assume "j \<noteq> ?n" "k \<noteq> ?n"
    with that have "j < ?n" "k < ?n" by simp_all
    with that I2 [of j k] show ?thesis by (simp add: old)
  qed simp
  have J3: "is_done (s_heap ?st' ! j)" if "j < Suc ?n" "isHeadMock (s_heap ?st' ! j)"
    "s_pins ?st' ! pinnedTo (s_heap ?st' ! j) \<noteq> VNull" for j
  proof (cases "j = ?n")
    case True
    with that head_x show ?thesis by (simp add: new m_def)
  next
    case False
    with that have j: "j < ?n" by simp
    with that I3 [OF j] cell [OF I1 [OF j]] show ?thesis by (simp add: old)
  qed
  have J4: "\<exists>c. s_pins ?st' ! pinnedTo (s_heap ?st' ! j) = VOther c"
    if "j < Suc ?n" "\<not> isHeadMock (s_heap ?st' ! j)" "is_done (s_heap ?st' ! j)" for j
  proof (cases "j = ?n")
    case True
    with that show ?thesis by (simp add: new m_def)
  next
    case False
    with that have j: "j < ?n" by simp
    with that I4 [OF j] cell [OF I1 [OF j]] show ?thesis by (simp add: old)
  qed
  have J5: "j < Suc ?n" if "j \<in> set (s_mocks ?st')" for j
    using that I5 by (auto simp: mocks less_Suc_eq)
  have J6: "isHeadMock (s_heap ?st' ! j)" if "j < Suc ?n" "isInit (s_heap ?st' ! j)" for j
  proof (cases "j = ?n")
    case True
    with that init_m show ?thesis by (simp add: new)
  next
    case False
    with that have j: "j < ?n" by simp
    with that I6 [OF j] show ?thesis by (simp add: old)
  qed
  show ?thesis
    unfolding tcp_inv_def len
    using J1 J2 J3 J4 J5 J6 by blast
qed

lemma tcp_inv_frame [simp]:
  "tcp_inv (st\<lparr>s_recv := rv\<rparr>) = tcp_inv st"
  "tcp_inv (st\<lparr>s_connections := cs\<rparr>) = tcp_inv st"
  by (simp_all add: tcp_inv_def)

lemma tcp_inv_mocks: "tcp_inv st \<Longrightarrow> set ms \<subseteq> set (s_mocks st) \<Longrightarrow> tcp_inv (st\<lparr>s_mocks := ms\<rparr>)"
  by (auto simp: tcp_inv_def)

lemma reset_subset: "set (fst (reset pending_of print ms arg)) \<subseteq> set ms"
  by (simp add: reset_def Let_def)

lemma tcp_step_inv:
  assumes inv: "tcp_inv st"
  shows "tcp_inv (fst (tcp_step E st ev))"
proof (cases ev)
  case (Add v)
  with tcp_add_inv [OF inv, of None] show ?thesis by simp
next
  case (Child h v)
  show ?thesis
  proof (cases "h < length (s_heap st)")
    case True
    with inv have "pinnedTo (s_heap st ! h) < length (s_pins st)"
      by (simp add: tcp_inv_def)
    with tcp_add_inv [OF inv, of "Some (pinnedTo (s_heap st ! h))"] True Child
    show ?thesis by (simp add: tcp_child_def Let_def)
  next
    case False
    with inv Child show ?thesis by (simp add: tcp_child_def)
  qed
next
  case (Connect conn)
  define st1 where "st1 = st\<lparr> s_connections := s_connections st @ [conn],
                                s_recv := (s_recv st)(conn \<mapsto> []) \<rparr>"
  have inv1: "tcp_inv st1" using inv by (simp add: st1_def)
  show ?thesis
  proof (cases "find (\<lambda>i. isInit (s_heap st1 ! i) \<and> isPending (s_heap st1 ! i)) (s_mocks st1)")
    case None
    with inv1 Connect show ?thesis by (simp add: tcp_connect_def Let_def st1_def)
  next
    case (Some iM)
    then have "iM \<in> set (s_mocks st1)" and "isInit (s_heap st1 ! iM)"
      by (auto simp: find_Some_iff)
    with inv1 have "iM < length (s_heap st1)" and "isHeadMock (s_heap st1 ! iM)"
      by (auto simp: tcp_inv_def)
    then have "tcp_inv (tcp_match st1 iM conn)"
      by (intro tcp_match_inv [OF inv1]) simp_all
    with Some Connect show ?thesis by (simp add: tcp_connect_def Let_def st1_def)
  qed
next
  case (Data conn b)
  show ?thesis
  proof (cases "s_recv st conn")
    case None
    with inv Data show ?thesis by (simp add: tcp_data_def)
  next
    case (Some old)
    define st1 where "st1 = st\<lparr> s_recv := (s_recv st)(conn \<mapsto> old @ b) \<rparr>"
    have inv1: "tcp_inv st1" using inv by (simp add: st1_def)
    show ?thesis
    proof (cases "find (\<lambda>i. tcp_isMatch E st1 (s_heap st1 ! i) (old @ b) conn) (s_mocks st1)")
      case None
      with inv1 Data Some show ?thesis by (simp add: tcp_data_def Let_def st1_def)
    next
      case found: (Some i)
      then have "i \<in> set (s_mocks st1)" and "tcp_isMatch E st1 (s_heap st1 ! i) (old @ b) conn"
        by (auto simp: find_Some_iff)
      with inv1 have "i < length (s_heap st1)"
        and "isHeadMock (s_heap st1 ! i) \<or> s_pins st1 ! pinnedTo (s_heap st1 ! i) = VOther conn"
        by (auto simp: tcp_inv_def tcp_isMatch_def split: if_splits)
      then have "tcp_inv (tcp_match st1 i conn)"
        by (intro tcp_match_inv [OF inv1])
      with found Data Some show ?thesis by (simp add: tcp_data_def Let_def st1_def)
    qed
  qed
next
  case (Reset arg)
  with tcp_inv_mocks [OF inv reset_subset] show ?thesis
    by (simp add: tcp_reset_def Let_def)
qed

lemma tcp_run_inv: "tcp_inv st \<Longrightarrow> tcp_inv (snd (tcp_run E st evs))"
  by (induction evs arbitrary: st) (simp_all add: Let_def tcp_step_inv)

lemma tcp_match_writes:
  assumes "i < length (s_heap st)" and "a < length (s_pins st)"
    and "s_pins (tcp_match st i conn) ! a \<noteq> s_pins st ! a"
  shows "isHeadMock (s_heap st ! i) \<and> pinnedTo (s_heap st ! i) = a
         \<and> is_done (s_heap (tcp_match st i conn) ! i)
         \<and> s_pins (tcp_match st i conn) ! a = VOther conn"
  using assms
  by (cases "pinnedTo (s_heap st ! i) = a")
     (auto simp: tcp_match_def Let_def split: if_splits)

lemma tcp_add_pins:
  "a < length (s_pins st) \<Longrightarrow> s_pins (fst (tcp_add E st v ref)) ! a = s_pins st ! a"
  by (auto simp: tcp_add_def Let_def nth_append split: sum.splits)

lemma tcp_step_writes:
  assumes inv: "tcp_inv st" and a: "a < length (s_pins st)"
    and changed: "s_pins (fst (tcp_step E st ev)) ! a \<noteq> s_pins st ! a"
  shows "\<exists>i < length (s_heap st). \<exists>conn.
           isHeadMock (s_heap st ! i) \<and> pinnedTo (s_heap st ! i) = a
           \<and> isPending (s_heap st ! i) \<and> is_done (s_heap (fst (tcp_step E st ev)) ! i)
           \<and> s_pins (fst (tcp_step E st ev)) ! a = VOther conn"
proof (cases ev)
  case (Add v)
  with changed tcp_add_pins [OF a] show ?thesis by simp
next
  case (Child h v)
  with changed tcp_add_pins [OF a] show ?thesis
    by (simp add: tcp_child_def Let_def split: if_splits)
next
  case (Connect conn)
  define st1 where "st1 = st\<lparr> s_connections := s_connections st @ [conn],
                                s_recv := (s_recv st)(conn \<mapsto> []) \<rparr>"
  show ?thesis
  proof (cases "find (\<lambda>i. isInit (s_heap st1 ! i) \<and> isPending (s_heap st1 ! i)) (s_mocks st1)")
    case None
    with changed Connect show ?thesis by (simp add: tcp_connect_def Let_def st1_def)
  next
    case (Some iM)
    then have mem: "iM \<in> set (s_mocks st)" and pend: "isPending (s_heap st ! iM)"
      by (auto simp: find_Some_iff st1_def)
    with inv have lt: "iM < length (s_heap st1)" by (auto simp: tcp_inv_def st1_def)
    have step: "fst (tcp_step E st ev) = tcp_match st1 iM conn"
      using Some Connect by (simp add: tcp_connect_def Let_def st1_def)
    from changed have "s_pins (tcp_match st1 iM conn) ! a \<noteq> s_pins st1 ! a"
      by (simp add: step st1_def)
    from tcp_match_writes [OF lt _ this] a pend lt show ?thesis
      unfolding step by (auto simp: st1_def)
  qed
next
  case (Data conn b)
  show ?thesis
  proof (cases "s_recv st conn")
    case None
    with changed Data show ?thesis by (simp add: tcp_data_def)
  next
    case (Some old)
    define st1 where "st1 = st\<lparr> s_recv := (s_recv st)(conn \<mapsto> old @ b) \<rparr>"
    show ?thesis
    proof (cases "find (\<lambda>i. tcp_isMatch E st1 (s_heap st1 ! i) (old @ b) conn) (s_mocks st1)")
      case None
      with changed Data Some show ?thesis by (simp add: tcp_data_def Let_def st1_def)
    next
      case found: (Some i)
      then have mem: "i \<in> set (s_mocks st)"
        and "tcp_isMatch E st1 (s_heap st1 ! i) (old @ b) conn"
        by (auto simp: find_Some_iff st1_def)
      then have pend: "isPending (s_heap st ! i)"
        by (auto simp: tcp_isMatch_def st1_def split: if_splits)
      from mem inv have lt: "i < length (s_heap st1)" by (auto simp: tcp_inv_def st1_def)
      have heap: "s_heap (fst (tcp_step E st ev)) = s_heap (tcp_match st1 i conn)"
        and pins: "s_pins (fst (tcp_step E st ev)) = s_pins (tcp_match st1 i conn)"
        using found Data Some by (simp_all add: tcp_data_def Let_def st1_def)
      from changed have "s_pins (tcp_match st1 i conn) ! a \<noteq> s_pins st1 ! a"
        by (simp add: pins st1_def)
      from tcp_match_writes [OF lt _ this] a pend lt show ?thesis
        unfolding heap pins by (auto simp: st1_def)
    qed
  qed
next
  case (Reset arg)
  with changed show ?thesis by (simp add: tcp_reset_def Let_def)
qed

text \<open>
  C4. In every state the server reaches from its start, a tail mock that is matched
  shares its pinning record with no head that is still pending: a tail of the group of
  head \<open>h\<close> is never matched before \<open>h\<close>. The two reasons are stated with it. On a data
  arrival \<open>isMatch\<close> accepts a tail only when its shared record already holds the
  connection that delivers the data. And a step of the server changes the connection
  held by an existing record only by matching a pending head whose record it is, which
  is matched afterwards.
\<close>

theorem tail_never_matched_before_head:
  "(t < length (s_heap (snd (tcp_run E tcp_init evs)))
      \<and> h < length (s_heap (snd (tcp_run E tcp_init evs)))
      \<and> \<not> isHeadMock (s_heap (snd (tcp_run E tcp_init evs)) ! t)
      \<and> isHeadMock (s_heap (snd (tcp_run E tcp_init evs)) ! h)
      \<and> pinnedTo (s_heap (snd (tcp_run E tcp_init evs)) ! t)
          = pinnedTo (s_heap (snd (tcp_run E tcp_init evs)) ! h)
      \<and> is_done (s_heap (snd (tcp_run E tcp_init evs)) ! t)
     \<longrightarrow> is_done (s_heap (snd (tcp_run E tcp_init evs)) ! h))
   \<and> (tcp_isMatch E st m bytes conn \<and> \<not> isHeadMock m
     \<longrightarrow> s_pins st ! pinnedTo m = VOther conn)
   \<and> (a < length (s_pins (snd (tcp_run E tcp_init evs)))
      \<and> s_pins (fst (tcp_step E (snd (tcp_run E tcp_init evs)) ev)) ! a
          \<noteq> s_pins (snd (tcp_run E tcp_init evs)) ! a
     \<longrightarrow> (\<exists>i < length (s_heap (snd (tcp_run E tcp_init evs))). \<exists>c.
            isHeadMock (s_heap (snd (tcp_run E tcp_init evs)) ! i)
            \<and> pinnedTo (s_heap (snd (tcp_run E tcp_init evs)) ! i) = a
            \<and> isPending (s_heap (snd (tcp_run E tcp_init evs)) ! i)
            \<and> is_done (s_heap (fst (tcp_step E (snd (tcp_run E tcp_init evs)) ev)) ! i)
            \<and> s_pins (fst (tcp_step E (snd (tcp_run E tcp_init evs)) ev)) ! a = VOther c))"
proof (intro conjI impI)
  let ?st = "snd (tcp_run E tcp_init evs)"
  have inv: "tcp_inv ?st"
    by (rule tcp_run_inv [OF tcp_inv_init])
  {
    assume H: "t < length (s_heap ?st) \<and> h < length (s_heap ?st)
      \<and> \<not> isHeadMock (s_heap ?st ! t) \<and> isHeadMock (s_heap ?st ! h)
      \<and> pinnedTo (s_heap ?st ! t) = pinnedTo (s_heap ?st ! h) \<and> is_done (s_heap ?st ! t)"
    with inv obtain c where "s_pins ?st ! pinnedTo (s_heap ?st ! t) = VOther c"
      unfolding tcp_inv_def by blast
    with H have "s_pins ?st ! pinnedTo (s_heap ?st ! h) \<noteq> VNull" by simp
    with inv H show "is_done (s_heap ?st ! h)"
      unfolding tcp_inv_def by blast
  }
  {
    assume "a < length (s_pins ?st)
      \<and> s_pins (fst (tcp_step E ?st ev)) ! a \<noteq> s_pins ?st ! a"
    then show "\<exists>i < length (s_heap ?st). \<exists>c.
            isHeadMock (s_heap ?st ! i) \<and> pinnedTo (s_heap ?st ! i) = a
            \<and> isPending (s_heap ?st ! i) \<and> is_done (s_heap (fst (tcp_step E ?st ev)) ! i)
            \<and> s_pins (fst (tcp_step E ?st ev)) ! a = VOther c"
      using tcp_step_writes [OF inv, of a E ev] by blast
  }
next
  assume "tcp_isMatch E st m bytes conn \<and> \<not> isHeadMock m"
  then show "s_pins st ! pinnedTo m = VOther conn"
    by (auto simp: tcp_isMatch_def split: if_splits)
qed

theorem tail_never_matched_before_head_witness:
  "is_done (s_heap (snd (tcp_run demo_env tcp_init
              [Add (VObj [(''init'', VStr ''a'')]),
               Child 0 (VObj [(''req'', VStr ''b''), (''res'', VStr ''b'')]),
               Connect 7, Data 7 [0x62]])) ! 1)
   \<and> is_done (s_heap (snd (tcp_run demo_env tcp_init
              [Add (VObj [(''init'', VStr ''a'')]),
               Child 0 (VObj [(''req'', VStr ''b''), (''res'', VStr ''b'')]),
               Connect 7, Data 7 [0x62]])) ! 0)
   \<and> s_pins (snd (tcp_run demo_env tcp_init
              [Add (VObj [(''init'', VStr ''a'')]),
               Child 0 (VObj [(''req'', VStr ''b''), (''res'', VStr ''b'')]),
               Connect 7])) ! 0 = VOther 7
   \<and> (\<exists>i < 2. \<exists>c.
         isPending (s_heap (snd (tcp_run demo_env tcp_init
              [Add (VObj [(''init'', VStr ''a'')]),
               Child 0 (VObj [(''req'', VStr ''b''), (''res'', VStr ''b'')])])) ! i)
         \<and> s_pins (fst (tcp_step demo_env (snd (tcp_run demo_env tcp_init
              [Add (VObj [(''init'', VStr ''a'')]),
               Child 0 (VObj [(''req'', VStr ''b''), (''res'', VStr ''b'')])])) (Connect 7))) ! 0
             = VOther c)"
proof -
  define evs2 where "evs2 = [Add (VObj [(''init'', VStr ''a'')]),
               Child 0 (VObj [(''req'', VStr ''b''), (''res'', VStr ''b'')])]"
  define evs3 where "evs3 = [Add (VObj [(''init'', VStr ''a'')]),
               Child 0 (VObj [(''req'', VStr ''b''), (''res'', VStr ''b'')]), Connect 7]"
  define evs4 where "evs4 = [Add (VObj [(''init'', VStr ''a'')]),
               Child 0 (VObj [(''req'', VStr ''b''), (''res'', VStr ''b'')]),
               Connect 7, Data 7 [0x62]]"
  define st2 where "st2 = snd (tcp_run demo_env tcp_init evs2)"
  define st3 where "st3 = snd (tcp_run demo_env tcp_init evs3)"
  define st4 where "st4 = snd (tcp_run demo_env tcp_init evs4)"
  have a: "1 < length (s_heap st4) \<and> 0 < length (s_heap st4)
      \<and> \<not> isHeadMock (s_heap st4 ! 1) \<and> isHeadMock (s_heap st4 ! 0)
      \<and> pinnedTo (s_heap st4 ! 1) = pinnedTo (s_heap st4 ! 0) \<and> is_done (s_heap st4 ! 1)"
    unfolding st4_def evs4_def by code_simp
  have b: "tcp_isMatch demo_env st3 (s_heap st3 ! 1) [0x62] 7 \<and> \<not> isHeadMock (s_heap st3 ! 1)"
    unfolding st3_def evs3_def by code_simp
  have b': "pinnedTo (s_heap st3 ! 1) = 0"
    unfolding st3_def evs3_def by code_simp
  have c: "0 < length (s_pins st2)
      \<and> s_pins (fst (tcp_step demo_env st2 (Connect 7))) ! 0 \<noteq> s_pins st2 ! 0"
    unfolding st2_def evs2_def by code_simp
  have l: "length (s_heap st2) = 2"
    unfolding st2_def evs2_def by code_simp
  note t = tail_never_matched_before_head
  from t [where E = demo_env and evs = evs4 and t = 1 and h = 0] a
  have c1: "is_done (s_heap st4 ! 0)"
    unfolding st4_def by blast
  from t [where E = demo_env and st = st3 and m = "s_heap st3 ! 1" and bytes = "[0x62]" and conn = 7] b b'
  have c2: "s_pins st3 ! 0 = VOther 7"
    by simp
  from t [where E = demo_env and evs = evs2 and a = 0 and ev = "Connect 7"] c l
  have c3: "\<exists>i < 2. \<exists>c. isPending (s_heap st2 ! i)
              \<and> s_pins (fst (tcp_step demo_env st2 (Connect 7))) ! 0 = VOther c"
    unfolding st2_def by (metis (no_types, lifting))
  from a c1 c2 c3 show ?thesis
    unfolding st2_def st3_def st4_def evs2_def evs3_def evs4_def by blast
qed

subsection \<open>Validating a conformed declaration again\<close>

lemma plain_data_not_function: "plain_data v \<Longrightarrow> \<not> isFunction' v"
  by (cases v) simp_all

lemma pt_leaves:
  "passes_through E Always" "passes_through E IsString" "passes_through E IsPlainObject"
  "passes_through E IsBuffer" "passes_through E IsBoolean" "passes_through E IsRegExp"
  "passes_through E IsUndefined" "passes_through E IsInteger" "passes_through E IsArray"
  "passes_through E IsValidStatusCode" "passes_through E IsPositive"
  "passes_through E (Exclusive A B)" "passes_through E (IsFunction q)"
  by (simp_all add: passes_through_def plain_data_not_function Let_def)

lemma pt_Alias: "passes_through E p \<Longrightarrow> passes_through E (Alias p message)"
  by (simp add: passes_through_def Let_def)

lemma find_in_set: "find P xs = Some x \<Longrightarrow> x \<in> set xs"
  by (induction xs) (auto split: if_splits)

lemma pt_Or:
  assumes "\<forall>p \<in> set ps. passes_through E p"
  shows "passes_through E (Or ps)"
  unfolding passes_through_def
proof (intro allI impI)
  fix v path
  assume v: "plain_data v"
  show "fst (validate E (Or ps) v path) = v"
  proof (cases "find (\<lambda>res. snd res = []) (map (\<lambda>p. validate E p v path) ps)")
    case None
    then show ?thesis by simp
  next
    case (Some res)
    from find_in_set [OF Some] obtain p where "p \<in> set ps" and "res = validate E p v path"
      by auto
    with assms v have "fst res = v" by (simp add: passes_through_def)
    with Some show ?thesis by simp
  qed
qed

lemma and_fold_Inl:
  "foldl (\<lambda>st p. case st of Inl errors \<Rightarrow> Inl errors
                  | Inr conformed \<Rightarrow>
                      (let ce = validate E p conformed path
                       in if snd ce \<noteq> [] then Inl (snd ce) else Inr (fst ce)))
     (Inl e) ps = Inl e"
  by (induction ps) simp_all

lemma and_fold_pt:
  assumes "\<forall>p \<in> set ps. passes_through E p" and "plain_data v"
  shows "case foldl (\<lambda>st p. case st of Inl errors \<Rightarrow> Inl errors
                  | Inr conformed \<Rightarrow>
                      (let ce = validate E p conformed path
                       in if snd ce \<noteq> [] then Inl (snd ce) else Inr (fst ce)))
          (Inr v) ps of Inl e \<Rightarrow> True | Inr c \<Rightarrow> c = v"
  using assms
proof (induction ps)
  case Nil
  then show ?case by simp
next
  case (Cons p ps)
  then have "fst (validate E p v path) = v" by (simp add: passes_through_def)
  with Cons show ?case by (simp add: Let_def and_fold_Inl)
qed

lemma pt_And:
  assumes "\<forall>p \<in> set ps. passes_through E p"
  shows "passes_through E (And ps)"
  unfolding passes_through_def
proof (intro allI impI)
  fix v path
  assume "plain_data v"
  from and_fold_pt [OF assms this, of path] show "fst (validate E (And ps) v path) = v"
    by (auto split: sum.splits)
qed

lemma pt_branch_loop:
  assumes "\<forall>p \<in> set bs. passes_through E p" and "\<forall>p \<in> set ns. passes_through E p"
    and "plain_data v"
  shows "fst (branch_loop E bs ns msg v path) = v"
  using assms
proof (induction bs arbitrary: ns)
  case Nil
  then show ?case by simp
next
  case (Cons b bs)
  have b: "fst (validate E b v path) = v"
    using Cons.prems by (simp add: passes_through_def)
  have tl: "\<forall>p \<in> set (tl ns). passes_through E p"
    using Cons.prems(2) by (cases ns) simp_all
  show ?case
  proof (cases "snd (validate E b v path) = []")
    case True
    show ?thesis
    proof (cases ns)
      case Nil
      with True show ?thesis by (simp add: Let_def)
    next
      case (Cons n ns')
      with Cons.prems(2,3) have "fst (validate E n v path) = v"
        by (simp add: passes_through_def)
      with True Cons b show ?thesis by (simp add: Let_def)
    qed
  next
    case False
    with Cons.IH [OF _ tl Cons.prems(3)] Cons.prems(1) show ?thesis
      by (simp add: Let_def)
  qed
qed

lemma pt_Branch:
  assumes "\<forall>p \<in> set bs. passes_through E p" and "\<forall>p \<in> set ns. passes_through E p"
  shows "passes_through E (Branch bs ns msg)"
  using pt_branch_loop [OF assms] by (simp add: passes_through_def)

lemma pt_Arr:
  assumes "passes_through E p"
  shows "passes_through E (Arr p)"
  unfolding passes_through_def
proof (intro allI impI)
  fix v path
  assume v: "plain_data v"
  show "fst (validate E (Arr p) v path) = v"
  proof (cases v)
    case (VArr xs)
    have "map (\<lambda>i. fst (validate E p (xs ! i) (path @ [show_nat i]))) [0..<length xs]
            = map (\<lambda>i. xs ! i) [0..<length xs]"
    proof (rule map_cong [OF refl])
      fix i assume "i \<in> set [0..<length xs]"
      then have "xs ! i \<in> set xs" by simp
      with v VArr have "plain_data (xs ! i)" by (simp add: list_all_iff)
      with assms show "fst (validate E p (xs ! i) (path @ [show_nat i])) = xs ! i"
        by (simp add: passes_through_def)
    qed
    then show ?thesis using VArr by (simp add: Let_def comp_def map_nth)
  qed simp_all
qed

lemma pt_Keyvals:
  assumes "passes_through E kp" and "passes_through E vp"
  shows "passes_through E (Keyvals kp vp)"
  unfolding passes_through_def
proof (intro allI impI)
  fix v path
  assume v: "plain_data v"
  show "fst (validate E (Keyvals kp vp) v path) = v"
  proof (cases v)
    case (VObj kvs)
    show ?thesis
    proof (cases "isPlainObject' v")
      case False
      with VObj show ?thesis by (simp del: isPlainObject'.simps)
    next
      case True
      have each: "(to_key E (fst (validate E kp (VStr (fst kv)) (path @ [''$key'']))),
                   fst (validate E vp (snd kv) (path @ [fst kv]))) = kv"
        if "kv \<in> set kvs" for kv
      proof -
        from that v VObj have "plain_data (snd kv)" by (simp add: list_all_iff)
        with assms(2) have "fst (validate E vp (snd kv) (path @ [fst kv])) = snd kv"
          by (simp add: passes_through_def)
        moreover from assms(1) have "fst (validate E kp (VStr (fst kv)) (path @ [''$key''])) = VStr (fst kv)"
          by (simp add: passes_through_def)
        ultimately show ?thesis by (simp add: to_key_def)
      qed
      have "foldl (\<lambda>acc kr. set_prop acc (to_key E (fst (fst kr))) (fst (snd kr))) []
              (map (\<lambda>kv. (validate E kp (VStr (fst kv)) (path @ [''$key'']),
                           validate E vp (snd kv) (path @ [fst kv]))) kvs)
            = foldl (\<lambda>acc kv. set_prop acc (fst kv) (snd kv)) []
                (map (\<lambda>kv. (to_key E (fst (validate E kp (VStr (fst kv)) (path @ [''$key'']))),
                             fst (validate E vp (snd kv) (path @ [fst kv])))) kvs)"
        by (simp add: foldl_map)
      also have "map (\<lambda>kv. (to_key E (fst (validate E kp (VStr (fst kv)) (path @ [''$key'']))),
                             fst (validate E vp (snd kv) (path @ [fst kv])))) kvs = kvs"
        using each by (simp add: map_idI)
      also have "foldl (\<lambda>acc kv. set_prop acc (fst kv) (snd kv)) [] kvs = kvs"
        using v VObj foldl_set_prop_fresh [of kvs "[]"] by simp
      finally show ?thesis
        using True VObj by (simp add: Let_def del: isPlainObject'.simps)
    qed
  qed simp_all
qed

lemma pt_stable: "passes_through E p \<Longrightarrow> stable E p"
  unfolding stable_def passes_through_def by (metis prod.collapse)

lemma plain_data_get_prop:
  assumes "plain_data v" and "inherited k = VUndefined"
  shows "plain_data (get_prop v k)"
proof (cases v)
  case (VObj kvs)
  show ?thesis
  proof (cases "map_of kvs k")
    case None
    with VObj assms(2) show ?thesis by simp
  next
    case (Some x)
    then have "(k, x) \<in> set kvs" by (rule map_of_SomeD)
    with assms(1) VObj have "plain_data x" by (auto simp: list_all_iff)
    with VObj Some show ?thesis by simp
  qed
qed simp_all

lemma inherited_names:
  assumes "inherited k = VUndefined"
  shows "k \<noteq> ''__proto__''" and "k \<noteq> ''constructor''"
  using assms by (auto simp: inherited_def)

lemma plain_Obj_result:
  assumes "isPlainObject' v" and "distinct (map fst ps)"
    and "\<forall>kp \<in> set ps. inherited (fst kp) = VUndefined"
  shows "isPlainObject' (fst (validate E (Obj ps) v path))"
proof -
  have np: "''__proto__'' \<notin> fst ` set ps" and nc: "''constructor'' \<notin> fst ` set ps"
    using assms(3) inherited_names by (metis imageE)+
  from validate_Obj [OF assms(1,2) np] plain_conformed [OF nc] show ?thesis by simp
qed

lemma stable_Obj:
  assumes fields: "\<forall>kp \<in> set ps. stable E (snd kp) \<and> inherited (fst kp) = VUndefined"
    and d: "distinct (map fst ps)"
  shows "stable E (Obj ps)"
  unfolding stable_def
proof (intro allI impI, elim conjE)
  fix v path
  assume v: "plain_data v" and ok: "snd (validate E (Obj ps) v path) = []"
  have np: "''__proto__'' \<notin> fst ` set ps" and nc: "''constructor'' \<notin> fst ` set ps"
    using fields inherited_names by (metis imageE)+
  have pl: "isPlainObject' v"
    using ok by (rule contrapos_pp) (simp del: isPlainObject'.simps)
  define c where "c = VObj (filter (\<lambda>kv. snd kv \<noteq> VUndefined) (obj_fields E ps v path))"
  note vo = validate_Obj [OF pl d np, of E path]
  have first: "fst (validate E (Obj ps) v path) = c"
    using vo by (simp add: c_def)
  have noerr: "snd (validate E (snd kp) (get_prop v (fst kp)) (path @ [fst kp])) = []"
    if "kp \<in> set ps" for kp
    using ok that unfolding vo by auto
  have field: "plain_data (fst (validate E (snd kp) (get_prop v (fst kp)) (path @ [fst kp])))
      \<and> validate E (snd kp) (fst (validate E (snd kp) (get_prop v (fst kp)) (path @ [fst kp])))
           (path @ [fst kp])
          = (fst (validate E (snd kp) (get_prop v (fst kp)) (path @ [fst kp])), [])"
    if "kp \<in> set ps" for kp
  proof -
    from fields that have s: "stable E (snd kp)" and i: "inherited (fst kp) = VUndefined"
      by simp_all
    from plain_data_get_prop [OF v i] noerr [OF that] s show ?thesis
      unfolding stable_def by blast
  qed
  have pc: "isPlainObject' c"
    unfolding c_def by (rule plain_conformed [OF nc])
  have pd: "plain_data c"
  proof -
    have "distinct (map fst (obj_fields E ps v path))"
      using d by (simp add: obj_fields_def comp_def)
    then have "distinct (map fst (filter (\<lambda>kv. snd kv \<noteq> VUndefined) (obj_fields E ps v path)))"
      by (rule distinct_map_filter)
    moreover have "''__proto__'' \<notin> fst ` set (filter (\<lambda>kv. snd kv \<noteq> VUndefined) (obj_fields E ps v path))"
      using np by (force simp: obj_fields_def)
    moreover have "plain_data (snd kv)"
      if "kv \<in> set (filter (\<lambda>kv. snd kv \<noteq> VUndefined) (obj_fields E ps v path))" for kv
    proof -
      from that obtain kp where "kp \<in> set ps"
        and "kv = (fst kp, fst (validate E (snd kp) (get_prop v (fst kp)) (path @ [fst kp])))"
        by (auto simp: obj_fields_def)
      with field show ?thesis by simp
    qed
    ultimately show ?thesis by (simp add: c_def list_all_iff)
  qed
  have again: "validate E (snd kp) (get_prop c (fst kp)) (path @ [fst kp])
                 = (fst (validate E (snd kp) (get_prop v (fst kp)) (path @ [fst kp])), [])"
    if "kp \<in> set ps" for kp
  proof -
    from fields that have i: "inherited (fst kp) = VUndefined" by simp
    from that have "(fst kp, snd kp) \<in> set ps" by simp
    from get_prop_conformed [OF this d i, of E v path]
    have "get_prop c (fst kp) = fst (validate E (snd kp) (get_prop v (fst kp)) (path @ [fst kp]))"
      by (simp add: c_def)
    with field [OF that] show ?thesis by simp
  qed
  have "obj_fields E ps c path = obj_fields E ps v path"
    unfolding obj_fields_def by (rule map_cong [OF refl]) (simp add: again)
  moreover have "concat (map (\<lambda>kp. snd (validate E (snd kp) (get_prop c (fst kp)) (path @ [fst kp]))) ps) = []"
    by (simp add: again)
  ultimately have "validate E (Obj ps) c path = (c, [])"
    using validate_Obj [OF pc d np, of E path] by (simp add: c_def)
  with pd first
  show "plain_data (fst (validate E (Obj ps) v path))
        \<and> validate E (Obj ps) (fst (validate E (Obj ps) v path)) path
            = (fst (validate E (Obj ps) v path), [])"
    by simp
qed

lemma stable_branch_plain:
  assumes n: "stable E n"
    and plainres: "\<forall>v path. isPlainObject' v \<longrightarrow> isPlainObject' (fst (validate E n v path))"
    and bs: "\<forall>p \<in> set bs. passes_through E p" and ns: "\<forall>p \<in> set ns. passes_through E p"
  shows "stable E (Branch (IsPlainObject # bs) (n # ns) msg)"
  unfolding stable_def
proof (intro allI impI, elim conjE)
  fix v path
  let ?B = "Branch (IsPlainObject # bs) (n # ns) msg"
  assume v: "plain_data v" and ok: "snd (validate E ?B v path) = []"
  have unfold: "validate E ?B w path
                  = (if isPlainObject' w then validate E n w path
                     else branch_loop E bs ns msg w path)" for w
    by (simp add: Let_def del: isPlainObject'.simps)
  show "plain_data (fst (validate E ?B v path))
        \<and> validate E ?B (fst (validate E ?B v path)) path = (fst (validate E ?B v path), [])"
  proof (cases "isPlainObject' v")
    case True
    with ok have okn: "snd (validate E n v path) = []" by (simp add: unfold)
    with n v have "plain_data (fst (validate E n v path))"
      and "validate E n (fst (validate E n v path)) path = (fst (validate E n v path), [])"
      unfolding stable_def by blast+
    moreover from plainres True have "isPlainObject' (fst (validate E n v path))" by blast
    ultimately show ?thesis using True by (simp add: unfold)
  next
    case False
    from pt_branch_loop [OF bs ns v] have "fst (branch_loop E bs ns msg v path) = v" .
    with False have same: "fst (validate E ?B v path) = v" by (simp add: unfold)
    with ok have "validate E ?B v path = (v, [])" by (metis prod.collapse)
    with same v show ?thesis by simp
  qed
qed

lemma pt_schemas:
  "passes_through E optComparable" "passes_through E headerComparable"
  "passes_through E reqHeaders" "passes_through E optBufferable"
  "passes_through E funcOptBufferable" "passes_through E resHeaders"
  "passes_through E statusCode_schema" "passes_through E delay"
  "passes_through E destroySocket_schema" "passes_through E port"
proof -
  show oc: "passes_through E optComparable"
    unfolding optComparable_def by (intro pt_Alias pt_Or) (simp add: pt_leaves)
  show hc: "passes_through E headerComparable"
    unfolding headerComparable_def by (intro pt_Branch) (simp_all add: oc pt_leaves pt_Arr)
  show "passes_through E reqHeaders"
    unfolding reqHeaders_def by (intro pt_Branch) (simp_all add: hc pt_leaves pt_Keyvals)
  show ob: "passes_through E optBufferable"
    unfolding optBufferable_def by (intro pt_Alias pt_Or) (simp add: pt_leaves)
  show fob: "passes_through E funcOptBufferable"
    unfolding funcOptBufferable_def by (intro pt_Alias pt_Or) (simp add: ob pt_leaves)
  show "passes_through E resHeaders"
    unfolding resHeaders_def branchWithFunction_def Let_def isValidResHeaders_def
    by (intro pt_Branch) (simp_all add: fob pt_leaves pt_Keyvals)
  show "passes_through E statusCode_schema"
    unfolding statusCode_schema_def branchWithFunction_def Let_def
    by (intro pt_Branch) (simp_all add: pt_leaves pt_And)
  have pi: "passes_through E isPositiveInt"
    unfolding isPositiveInt_def by (intro pt_And) (simp add: pt_leaves)
  show "passes_through E delay"
    unfolding delay_def branchWithFunction_def Let_def
    by (intro pt_Branch) (simp_all add: pi pt_leaves)
  show "passes_through E destroySocket_schema"
    unfolding destroySocket_schema_def branchWithFunction_def Let_def
    by (intro pt_Branch) (simp_all add: pt_leaves)
  show "passes_through E port"
    unfolding port_def by (intro pt_Alias pt_Or) (simp add: pi pt_leaves)
qed

lemma inherited_fields [simp]:
  "inherited ''req'' = VUndefined" "inherited ''res'' = VUndefined"
  "inherited ''method'' = VUndefined" "inherited ''pathname'' = VUndefined"
  "inherited ''query'' = VUndefined" "inherited ''headers'' = VUndefined"
  "inherited ''body'' = VUndefined" "inherited ''statusCode'' = VUndefined"
  "inherited ''headerDelay'' = VUndefined" "inherited ''bodyDelay'' = VUndefined"
  "inherited ''destroySocket'' = VUndefined" "inherited ''port'' = VUndefined"
  "inherited ''init'' = VUndefined" "inherited ''_pinnedTo'' = VUndefined"
  by (simp_all add: inherited_def object_prototype_keys_def)

lemma stable_http_mockSchema: "stable E http_mockSchema"
proof -
  have reqObj: "stable E http_reqObj"
    unfolding http_reqObj_def by (intro stable_Obj) (simp_all add: pt_stable pt_schemas)
  have req: "stable E http_req"
    unfolding http_req_def
    by (intro stable_branch_plain reqObj)
       (simp_all add: pt_leaves http_reqObj_def plain_Obj_result del: isPlainObject'.simps validate.simps)
  have resObj: "stable E http_resObj"
    unfolding http_resObj_def by (intro stable_Obj) (simp_all add: pt_stable pt_schemas)
  have res: "stable E http_res"
    unfolding http_res_def branchWithFunction_def Let_def append.simps
    by (intro stable_branch_plain resObj)
       (simp_all add: pt_leaves http_resObj_def plain_Obj_result del: isPlainObject'.simps validate.simps)
  have "stable E (Obj [(''req'', http_req), (''res'', http_res)])"
    by (intro stable_Obj) (simp_all add: req res)
  then show ?thesis
    unfolding http_mockSchema_def
    by (intro stable_branch_plain)
       (simp_all add: pt_leaves plain_Obj_result del: isPlainObject'.simps validate.simps)
qed

lemma stable_port_schemas: "stable E httpSchema" "stable E tcpSchema"
proof -
  have "stable E (Obj [(''port'', port)])"
    by (intro stable_Obj) (simp_all add: pt_stable pt_schemas)
  then show "stable E httpSchema" "stable E tcpSchema"
    unfolding httpSchema_def tcpSchema_def
    by (intro stable_branch_plain;
        simp add: pt_leaves plain_Obj_result del: isPlainObject'.simps validate.simps)+
qed

lemma stable_tcp_mockSchema: "stable E tcp_mockSchema"
proof -
  define ps where "ps = [(''_pinnedTo'', Or [IsUndefined, IsPlainObject]), (''init'', optBufferable),
                         (''req'', optComparable), (''res'', tcp_res)]"
  have resObj: "stable E tcp_resObj"
    unfolding tcp_resObj_def by (intro stable_Obj) (simp_all add: pt_stable pt_schemas)
  have res: "stable E tcp_res"
    unfolding tcp_res_def branchWithFunction_def Let_def append.simps
    by (intro stable_branch_plain resObj)
       (simp_all add: pt_leaves pt_schemas tcp_resObj_def plain_Obj_result
          del: isPlainObject'.simps validate.simps)
  have pin: "passes_through E (Or [IsUndefined, IsPlainObject])"
    by (intro pt_Or) (simp add: pt_leaves)
  have obj: "stable E (Obj ps)"
    unfolding ps_def by (intro stable_Obj) (simp_all add: pt_stable pt_schemas pin res)
  have plain_obj: "isPlainObject' (fst (validate E (Obj ps) v path))" if "isPlainObject' v" for v path
    using that unfolding ps_def by (intro plain_Obj_result) simp_all
  have unfold: "validate E mockSchemaObj v path =
     (let r1 = validate E (Obj ps) v path
      in if snd r1 \<noteq> [] then (v, snd r1)
         else let r2 = validate E (Exclusive [''init''] [''req'', ''res'']) (fst r1) path
              in if snd r2 \<noteq> [] then (v, snd r2)
                 else let r3 = validate E connectionPinned (fst r2) path
                      in if snd r3 \<noteq> [] then (v, snd r3) else (fst r3, []))" for v path
    unfolding mockSchemaObj_def ps_def by (rule validate_And3)
  have plainres: "isPlainObject' (fst (validate E mockSchemaObj v path))"
    if "isPlainObject' v" for v path
    using that plain_obj [OF that, of path] unfolding unfold
    by (simp add: Let_def del: isPlainObject'.simps validate.simps)
  have mobj: "stable E mockSchemaObj"
    unfolding stable_def
  proof (intro allI impI, elim conjE)
    fix v path
    assume v: "plain_data v" and ok: "snd (validate E mockSchemaObj v path) = []"
    let ?c = "fst (validate E (Obj ps) v path)"
    have e1: "snd (validate E (Obj ps) v path) = []"
      using ok unfolding unfold by (auto simp: Let_def split: if_splits simp del: validate.simps)
    have e2: "snd (validate E (Exclusive [''init''] [''req'', ''res'']) ?c path) = []"
      using ok e1 unfolding unfold
      by (auto simp: Let_def split: if_splits simp del: validate.simps)
    have e3: "snd (validate E connectionPinned ?c path) = []"
      using ok e1 e2 unfolding unfold
      by (auto simp: Let_def split: if_splits simp del: validate.simps)
    have first: "fst (validate E mockSchemaObj v path) = ?c"
      unfolding unfold using e1 e2 e3 by (simp add: Let_def del: validate.simps)
    from obj v e1 have pd: "plain_data ?c" and again: "validate E (Obj ps) ?c path = (?c, [])"
      unfolding stable_def by blast+
    have "validate E mockSchemaObj ?c path = (?c, [])"
      unfolding unfold [of ?c] using again e2 e3 by (simp add: Let_def del: validate.simps)
    with pd first
    show "plain_data (fst (validate E mockSchemaObj v path))
          \<and> validate E mockSchemaObj (fst (validate E mockSchemaObj v path)) path
              = (fst (validate E mockSchemaObj v path), [])"
      by simp
  qed
  show ?thesis
    unfolding tcp_mockSchema_def
    by (intro stable_branch_plain mobj) (simp_all add: pt_leaves plainres)
qed

text \<open>
  C9, as the code has it. For the schemas of the library (HTTP and TCP mock
  declarations, HTTP and TCP server options) and a declaration made of data only,
  validating the conformed result of a validation without errors yields the same
  conformed value, again without errors. A callable is excluded: wherever a schema
  admits one, \<open>isFunction(p)\<close> wraps it anew at every validation, so the second result
  holds a wrapper around the first wrapper.
\<close>

theorem validation_idempotent_on_data:
  "plain_data x
   \<and> S \<in> set [http_mockSchema, tcp_mockSchema, httpSchema, tcpSchema]
   \<and> validate E S x path = (c, [])
   \<longrightarrow> validate E S c path = (c, [])"
proof
  assume H: "plain_data x \<and> S \<in> set [http_mockSchema, tcp_mockSchema, httpSchema, tcpSchema]
             \<and> validate E S x path = (c, [])"
  then have "stable E S"
    using stable_http_mockSchema stable_tcp_mockSchema stable_port_schemas by auto
  with H show "validate E S c path = (c, [])"
    unfolding stable_def by (metis fst_conv snd_conv)
qed

theorem validation_idempotent_on_data_witness:
  "validate demo_env http_mockSchema
     (VObj [(''req'', VObj [(''method'', VStr ''GET''),
                            (''headers'', VObj [(''X-A'', VArr [VStr ''a'', VStr ''b''])])]),
            (''res'', VObj [(''body'', VStr ''hi''), (''statusCode'', VNum 201)])])
     [''options'']
   = (VObj [(''req'', VObj [(''method'', VStr ''GET''),
                            (''headers'', VObj [(''X-A'', VArr [VStr ''a'', VStr ''b''])])]),
            (''res'', VObj [(''body'', VStr ''hi''), (''statusCode'', VNum 201)])], [])"
proof -
  let ?x = "VObj [(''junk'', VNull),
                  (''res'', VObj [(''statusCode'', VNum 201), (''body'', VStr ''hi'')]),
                  (''req'', VObj [(''method'', VStr ''GET''),
                                  (''headers'', VObj [(''X-A'', VArr [VStr ''a'', VStr ''b''])])])]"
  let ?c = "VObj [(''req'', VObj [(''method'', VStr ''GET''),
                            (''headers'', VObj [(''X-A'', VArr [VStr ''a'', VStr ''b''])])]),
            (''res'', VObj [(''body'', VStr ''hi''), (''statusCode'', VNum 201)])]"
  have h: "plain_data ?x
           \<and> http_mockSchema \<in> set [http_mockSchema, tcp_mockSchema, httpSchema, tcpSchema]
           \<and> validate demo_env http_mockSchema ?x [''options''] = (?c, [])"
    by code_simp
  from validation_idempotent_on_data [where x = ?x and S = http_mockSchema and E = demo_env
                                        and path = "[''options'']" and c = ?c] h
  have "validate demo_env http_mockSchema ?c [''options''] = (?c, [])" by blast
  then show ?thesis by simp
qed

text \<open>
  The declaration \<open>{ req: f }\<close> is valid. Its conformed value holds the wrapper
  around \<open>f\<close>; validating that value wraps the wrapper.
\<close>

theorem validation_idempotent_counterexample:
  "validate demo_env http_mockSchema (VObj [(''req'', VFun ''f'' 2)]) [''options'']
     = (VObj [(''req'', VLate IsBoolean [''options'', ''req''] (VFun ''f'' 2))], [])
   \<and> validate demo_env http_mockSchema
       (VObj [(''req'', VLate IsBoolean [''options'', ''req''] (VFun ''f'' 2))]) [''options'']
     = (VObj [(''req'', VLate IsBoolean [''options'', ''req'']
                          (VLate IsBoolean [''options'', ''req''] (VFun ''f'' 2)))], [])
   \<and> VObj [(''req'', VLate IsBoolean [''options'', ''req'']
                        (VLate IsBoolean [''options'', ''req''] (VFun ''f'' 2)))]
       \<noteq> VObj [(''req'', VLate IsBoolean [''options'', ''req''] (VFun ''f'' 2))]"
  by code_simp

end
